theory Spec2Isabelle
  imports Complex_Main "HOL-Library.Word"
begin

section \<open>Image enhancement and forensic metrics (src/app/src/app/page.tsx)\<close>

text \<open>
  This theory embeds the pixel-processing functions of \<^verbatim>\<open>page.tsx\<close>:
  \<^verbatim>\<open>computeMetrics\<close>, \<^verbatim>\<open>boxBlur\<close>, \<^verbatim>\<open>median3x3\<close>, \<^verbatim>\<open>unsharpMask\<close> and
  \<^verbatim>\<open>equalizeLuma\<close>.

  Conventions of the embedding.
  \<^item> A \<^verbatim>\<open>Uint8ClampedArray\<close> is a list of 8-bit words. A store converts the number
    with \<open>toUint8Clamp\<close>: NaN becomes 0, anything else is clamped to 0..255. Every
    number the source stores there is an integer (a sample, or a result of
    \<^verbatim>\<open>Math.round\<close>), so the rounding of the conversion never applies.
  \<^item> JavaScript numbers are IEEE doubles. The embeddings of \<^verbatim>\<open>computeMetrics\<close>,
    \<^verbatim>\<open>boxBlur\<close> and \<^verbatim>\<open>unsharpMask\<close> compute with exact reals (exact integers where
    the source only adds and subtracts samples); the rounding of their double and
    \<^verbatim>\<open>Float32Array\<close> arithmetic is not modelled. The embedding of \<^verbatim>\<open>equalizeLuma\<close>,
    whose output bytes depend on it, rounds every arithmetic operation to double
    precision and every \<^verbatim>\<open>Float32Array\<close> store to single precision.
    \<^verbatim>\<open>Math.round\<close> is \<open>jsRound\<close>, rounding halves up.
  \<^item> Reading a typed array out of range yields \<^verbatim>\<open>undefined\<close>, which turns every
    arithmetic result into NaN. Where the source can read out of range on a buffer of
    the right length (\<^verbatim>\<open>boxBlur\<close>, \<^verbatim>\<open>unsharpMask\<close>), numbers are options and \<open>None\<close>
    is NaN. Writing a typed array out of range does nothing, as \<open>list_update\<close> does.
\<close>

subsection \<open>Numbers and typed arrays\<close>

type_synonym byte = "8 word"

definition jsRound :: "real \<Rightarrow> int" where
  "jsRound v = \<lfloor>v + 1 / 2\<rfloor>"

definition clamp255 :: "int \<Rightarrow> int" where
  "clamp255 v = max 0 (min 255 v)"

definition toUint8Clamp :: "int option \<Rightarrow> byte" where
  "toUint8Clamp v = (case v of None \<Rightarrow> 0 | Some k \<Rightarrow> word_of_int (clamp255 k))"

definition rd :: "byte list \<Rightarrow> int \<Rightarrow> int option" where
  "rd a i = (if 0 \<le> i \<and> i < int (length a) then Some (uint (a ! nat i)) else None)"

definition wr :: "byte list \<Rightarrow> int \<Rightarrow> int option \<Rightarrow> byte list" where
  "wr a i v = (if 0 \<le> i then a[nat i := toUint8Clamp v] else a)"

definition numAdd :: "int option \<Rightarrow> int option \<Rightarrow> int option" where
  "numAdd a b = (case a of None \<Rightarrow> None | Some x \<Rightarrow> (case b of None \<Rightarrow> None | Some y \<Rightarrow> Some (x + y)))"

definition numSub :: "int option \<Rightarrow> int option \<Rightarrow> int option" where
  "numSub a b = (case a of None \<Rightarrow> None | Some x \<Rightarrow> (case b of None \<Rightarrow> None | Some y \<Rightarrow> Some (x - y)))"

definition numMul :: "int option \<Rightarrow> int option \<Rightarrow> int option" where
  "numMul a b = (case a of None \<Rightarrow> None | Some x \<Rightarrow> (case b of None \<Rightarrow> None | Some y \<Rightarrow> Some (x * y)))"

subsection \<open>boxBlur\<close>

text \<open>
  The horizontal pass of the source (lines 146 to 158), with \<^verbatim>\<open>chan = 4\<close>:
  \<^verbatim>\<open>
    const iarr = 1 / (r + r + 1);
    for (let y = 0; y < h; y++) {
      for (let c = 0; c < chan; c++) {
        let ti = (y * w) * chan + c, li = ti, ri = ti + r * chan;
        let fv = src[ti], lv = src[(y * w + (w - 1)) * chan + c];
        let val = (r + 1) * fv;
        for (let j = 0; j < r; j++) val += src[ti + j * chan];
        for (let x = 0; x <= r; x++) {
          tmp[ti] = Math.round(val * iarr); ti += chan; val += src[ri] - fv; ri += chan; }
        for (let x = r + 1; x < w - r; x++) {
          tmp[ti] = Math.round(val * iarr); ti += chan; val += src[ri] - src[li];
          ri += chan; li += chan; }
        for (let x = w - r; x < w; x++) {
          tmp[ti] = Math.round(val * iarr); ti += chan; val += lv - src[li]; li += chan; }
      }
    }
  \<close>
  The vertical pass (lines 160 to 170) is the same text over \<^verbatim>\<open>x\<close> and \<^verbatim>\<open>c\<close>, reading
  \<^verbatim>\<open>tmp\<close> and writing \<^verbatim>\<open>dst\<close>, with \<^verbatim>\<open>ti = x * chan + c\<close>, the stride \<^verbatim>\<open>w * chan\<close> in
  place of \<^verbatim>\<open>chan\<close>, \<^verbatim>\<open>h\<close> in place of \<^verbatim>\<open>w\<close> in the loop bounds and
  \<^verbatim>\<open>lv = tmp[((h - 1) * w + x) * chan + c]\<close>.

  Both passes are the same three loops over one line of samples, differing in the start
  index, the stride between samples, the number of samples and the index of the last
  sample. \<open>blurLine\<close> is that line pass: \<open>a\<close> is the array read (\<^verbatim>\<open>src\<close>, then
  \<^verbatim>\<open>tmp\<close>), \<open>out\<close> the array written (\<^verbatim>\<open>tmp\<close>, then \<^verbatim>\<open>dst\<close>), \<open>rd a start\<close> is \<^verbatim>\<open>fv\<close>
  and \<open>rd a lastIdx\<close> is \<^verbatim>\<open>lv\<close>. \<open>initVal\<close> is \<^verbatim>\<open>val\<close> before the three loops;
  \<open>leadStep\<close>, \<open>midStep\<close> and \<open>tailStep\<close> are the bodies of the three loops, which do
  not mention their counter: each stores the rounded mean of the running sum first
  (\<open>emit\<close>) and moves the window afterwards. The sums of samples are integers; a sum
  that met an out-of-range read is \<open>None\<close>.
\<close>

record lineState =
  buf :: "byte list"
  ti :: int
  li :: int
  ri :: int
  val :: "int option"

definition iarr :: "nat \<Rightarrow> real" where
  "iarr r = 1 / real (r + r + 1)"

definition emit :: "nat \<Rightarrow> lineState \<Rightarrow> byte list" where
  "emit r s = wr (buf s) (ti s) (map_option (\<lambda>v. jsRound (real_of_int v * iarr r)) (val s))"

definition leadStep :: "byte list \<Rightarrow> int \<Rightarrow> nat \<Rightarrow> int option \<Rightarrow> lineState \<Rightarrow> lineState" where
  "leadStep a stride r fv s =
     s\<lparr>buf := emit r s, ti := ti s + stride,
       val := numAdd (val s) (numSub (rd a (ri s)) fv), ri := ri s + stride\<rparr>"

definition midStep :: "byte list \<Rightarrow> int \<Rightarrow> nat \<Rightarrow> lineState \<Rightarrow> lineState" where
  "midStep a stride r s =
     s\<lparr>buf := emit r s, ti := ti s + stride,
       val := numAdd (val s) (numSub (rd a (ri s)) (rd a (li s))),
       ri := ri s + stride, li := li s + stride\<rparr>"

definition tailStep :: "byte list \<Rightarrow> int \<Rightarrow> nat \<Rightarrow> int option \<Rightarrow> lineState \<Rightarrow> lineState" where
  "tailStep a stride r lv s =
     s\<lparr>buf := emit r s, ti := ti s + stride,
       val := numAdd (val s) (numSub lv (rd a (li s))), li := li s + stride\<rparr>"

definition primeStep :: "byte list \<Rightarrow> int \<Rightarrow> int \<Rightarrow> int \<Rightarrow> int option \<Rightarrow> int option" where
  "primeStep a start stride j v = numAdd v (rd a (start + j * stride))"

definition initVal :: "byte list \<Rightarrow> int \<Rightarrow> int \<Rightarrow> nat \<Rightarrow> int option" where
  "initVal a start stride r =
     fold (primeStep a start stride) [0..int r - 1] (numMul (Some (int r + 1)) (rd a start))"

definition blurLine :: "byte list \<Rightarrow> byte list \<Rightarrow> int \<Rightarrow> int \<Rightarrow> int \<Rightarrow> nat \<Rightarrow> int \<Rightarrow> byte list" where
  "blurLine a out start stride n r lastIdx =
     buf (fold (\<lambda>x. tailStep a stride r (rd a lastIdx)) [n - int r..n - 1]
         (fold (\<lambda>x. midStep a stride r) [int r + 1..n - int r - 1]
         (fold (\<lambda>x. leadStep a stride r (rd a start)) [0..int r]
            \<lparr>buf = out, ti = start, li = start, ri = start + int r * stride,
             val = initVal a start stride r\<rparr>)))"

definition horizontalLine :: "byte list \<Rightarrow> nat \<Rightarrow> nat \<Rightarrow> int \<Rightarrow> int \<Rightarrow> byte list \<Rightarrow> byte list" where
  "horizontalLine src w r y c tmp =
     blurLine src tmp ((y * int w) * 4 + c) 4 (int w) r ((y * int w + (int w - 1)) * 4 + c)"

definition horizontalPass :: "byte list \<Rightarrow> byte list \<Rightarrow> nat \<Rightarrow> nat \<Rightarrow> nat \<Rightarrow> byte list" where
  "horizontalPass src tmp w h r =
     fold (\<lambda>y. fold (horizontalLine src w r y) [0..3]) [0..int h - 1] tmp"

definition verticalLine :: "byte list \<Rightarrow> nat \<Rightarrow> nat \<Rightarrow> nat \<Rightarrow> int \<Rightarrow> int \<Rightarrow> byte list \<Rightarrow> byte list" where
  "verticalLine tmp w h r x c dst =
     blurLine tmp dst (x * 4 + c) (int w * 4) (int h) r (((int h - 1) * int w + x) * 4 + c)"

definition verticalPass :: "byte list \<Rightarrow> byte list \<Rightarrow> nat \<Rightarrow> nat \<Rightarrow> nat \<Rightarrow> byte list" where
  "verticalPass tmp dst w h r =
     fold (\<lambda>x. fold (verticalLine tmp w h r x) [0..3]) [0..int w - 1] dst"

definition boxBlur :: "byte list \<Rightarrow> nat \<Rightarrow> nat \<Rightarrow> nat \<Rightarrow> byte list" where
  "boxBlur src w h r =
     verticalPass (horizontalPass src (replicate (length src) 0) w h r)
       (replicate (length src) 0) w h r"

subsection \<open>unsharpMask\<close>

text \<open>
  Lines 198 to 211 of the source:
  \<^verbatim>\<open>
    const blurred = boxBlur(src, w, h, radius);
    const dst = new Uint8ClampedArray(src.length);
    for (let i = 0; i < src.length; i += 4) {
      for (let c = 0; c < 3; c++) {
        const s = src[i + c];
        const b = blurred[i + c];
        let v = s + amount * (s - b);
        dst[i + c] = Math.max(0, Math.min(255, Math.round(v)));
      }
      dst[i + 3] = src[i + 3];
    }
    return dst;
  \<close>
  \<open>sharpen\<close> is the value stored in a colour channel, \<open>unsharpPixel\<close> the body of the
  outer loop, which runs over \<open>i = 0, 4, 8, \<dots>\<close> below the length of the source.
\<close>

definition sharpen :: "real \<Rightarrow> int option \<Rightarrow> int option \<Rightarrow> int option" where
  "sharpen amount s b =
     (case s of None \<Rightarrow> None
      | Some sv \<Rightarrow> (case b of None \<Rightarrow> None
          | Some bv \<Rightarrow> Some (clamp255 (jsRound
              (real_of_int sv + amount * (real_of_int sv - real_of_int bv))))))"

definition unsharpChannel :: "byte list \<Rightarrow> byte list \<Rightarrow> real \<Rightarrow> int \<Rightarrow> int \<Rightarrow> byte list \<Rightarrow> byte list" where
  "unsharpChannel src blurred amount i c d =
     wr d (i + c) (sharpen amount (rd src (i + c)) (rd blurred (i + c)))"

definition unsharpPixel :: "byte list \<Rightarrow> byte list \<Rightarrow> real \<Rightarrow> int \<Rightarrow> byte list \<Rightarrow> byte list" where
  "unsharpPixel src blurred amount i d =
     wr (fold (unsharpChannel src blurred amount i) [0..2] d) (i + 3) (rd src (i + 3))"

definition unsharpLoop :: "byte list \<Rightarrow> byte list \<Rightarrow> real \<Rightarrow> byte list" where
  "unsharpLoop src blurred amount =
     fold (unsharpPixel src blurred amount) (map (\<lambda>k. 4 * int k) [0..<(length src + 3) div 4])
       (replicate (length src) 0)"

definition unsharpMask :: "byte list \<Rightarrow> nat \<Rightarrow> nat \<Rightarrow> nat \<Rightarrow> real \<Rightarrow> byte list" where
  "unsharpMask src w h radius amount = unsharpLoop src (boxBlur src w h radius) amount"

subsection \<open>median3x3\<close>

text \<open>
  From here on the source reads only inside the arrays when the buffer has
  \<open>4 * w * h\<close> samples, which \<^verbatim>\<open>ImageData\<close> guarantees; the embeddings read with
  \<open>!\<close> and the theorems about values read assume that length.

  Lines 174 to 196 of the source:
  \<^verbatim>\<open>
    const dst = new Uint8ClampedArray(src.length);
    const chan = 4;
    const idx = (x: number, y: number, c: number) => (y * w + x) * chan + c;
    for (let y = 0; y < h; y++) {
      for (let x = 0; x < w; x++) {
        for (let c = 0; c < 3; c++) {
          const vals: number[] = [];
          for (let j = -1; j <= 1; j++) {
            for (let i = -1; i <= 1; i++) {
              const xx = Math.max(0, Math.min(w - 1, x + i));
              const yy = Math.max(0, Math.min(h - 1, y + j));
              vals.push(src[idx(xx, yy, c)]);
            }
          }
          vals.sort((a, b) => a - b);
          dst[idx(x, y, c)] = vals[4];
        }
        dst[idx(x, y, 3)] = src[idx(x, y, 3)];
      }
    }
    return dst;
  \<close>
  \<open>idx3\<close> is \<^verbatim>\<open>idx\<close>, \<open>clampCoord\<close> the clamping of \<^verbatim>\<open>xx\<close> and \<^verbatim>\<open>yy\<close>, \<open>neighbourhood\<close>
  the array \<^verbatim>\<open>vals\<close> before it is sorted; the numeric sort of samples is \<open>sort\<close> on
  8-bit words, whose order is the order of their values.
\<close>

definition idx3 :: "nat \<Rightarrow> nat \<Rightarrow> nat \<Rightarrow> nat \<Rightarrow> nat" where
  "idx3 w x y c = (y * w + x) * 4 + c"

definition clampCoord :: "nat \<Rightarrow> int \<Rightarrow> nat" where
  "clampCoord n k = nat (max 0 (min (int n - 1) k))"

definition neighbour :: "byte list \<Rightarrow> nat \<Rightarrow> nat \<Rightarrow> nat \<Rightarrow> nat \<Rightarrow> nat \<Rightarrow> int \<Rightarrow> int \<Rightarrow> byte" where
  "neighbour src w h x y c j i =
     src ! idx3 w (clampCoord w (int x + i)) (clampCoord h (int y + j)) c"

definition neighbourRow :: "byte list \<Rightarrow> nat \<Rightarrow> nat \<Rightarrow> nat \<Rightarrow> nat \<Rightarrow> nat \<Rightarrow> int \<Rightarrow> byte list" where
  "neighbourRow src w h x y c j = map (neighbour src w h x y c j) [-1..1]"

definition neighbourhood :: "byte list \<Rightarrow> nat \<Rightarrow> nat \<Rightarrow> nat \<Rightarrow> nat \<Rightarrow> nat \<Rightarrow> byte list" where
  "neighbourhood src w h x y c = concat (map (neighbourRow src w h x y c) [-1..1])"

definition medianChannel :: "byte list \<Rightarrow> nat \<Rightarrow> nat \<Rightarrow> nat \<Rightarrow> nat \<Rightarrow> nat \<Rightarrow> byte list \<Rightarrow> byte list" where
  "medianChannel src w h y x c d = d[idx3 w x y c := sort (neighbourhood src w h x y c) ! 4]"

definition medianPixel :: "byte list \<Rightarrow> nat \<Rightarrow> nat \<Rightarrow> nat \<Rightarrow> nat \<Rightarrow> byte list \<Rightarrow> byte list" where
  "medianPixel src w h y x d =
     (fold (medianChannel src w h y x) [0..<3] d)[idx3 w x y 3 := src ! idx3 w x y 3]"

definition median3x3 :: "byte list \<Rightarrow> nat \<Rightarrow> nat \<Rightarrow> byte list" where
  "median3x3 src w h =
     fold (\<lambda>y. fold (medianPixel src w h y) [0..<w]) [0..<h] (replicate (length src) 0)"

subsection \<open>Double and single precision\<close>

text \<open>
  \<^verbatim>\<open>equalizeLuma\<close> quantises a product of doubles with \<^verbatim>\<open>Math.round\<close> and keeps its
  chrominance and its remapped luminance in \<^verbatim>\<open>Float32Array\<close>s, so its bytes depend on the
  rounding of IEEE 754 arithmetic. A finite double or single is modelled by the real it
  denotes. \<open>roundTo p emin x\<close> is the number nearest to \<open>x\<close> among the multiples of
  \<open>2 ^ (e - p + 1)\<close>, where \<open>e\<close> is the binary exponent of \<open>x\<close> (\<open>expo\<close>, with
  \<open>2 ^ e \<le> \<bar>x\<bar> < 2 ^ (e + 1)\<close>) or \<open>emin\<close> when \<open>x\<close> is smaller than \<open>2 ^ emin\<close> (the
  subnormal range); of two nearest multiples it takes the even one. This is rounding to
  nearest, ties to even, at precision \<open>p\<close>: \<open>double\<close> for binary64, which every
  arithmetic operation of JavaScript and every decimal literal applies, and \<open>fround\<close>
  for binary32, which a store into a \<^verbatim>\<open>Float32Array\<close> applies. \<open>bitLength n\<close> is the
  number of binary digits of \<open>n\<close>. Overflow to infinity is not modelled: the values of
  \<^verbatim>\<open>equalizeLuma\<close> are array lengths, quotients in 0..1 and sums of a few such terms.
\<close>

fun bitLength :: "nat \<Rightarrow> nat" where
  "bitLength n = (if n = 0 then 0 else Suc (bitLength (n div 2)))"

declare bitLength.simps [simp del]

definition expo :: "real \<Rightarrow> int" where
  "expo x = (if 1 \<le> \<bar>x\<bar> then int (bitLength (nat \<lfloor>\<bar>x\<bar>\<rfloor>)) - 1
             else - int (bitLength (nat (\<lceil>1 / \<bar>x\<bar>\<rceil> - 1))))"

definition pow2 :: "int \<Rightarrow> real" where
  "pow2 e = (if 0 \<le> e then 2 ^ nat e else 1 / 2 ^ nat (- e))"

definition tieToEven :: "int \<Rightarrow> real \<Rightarrow> int" where
  "tieToEven f d =
     (if d < 1 / 2 then f else if 1 / 2 < d then f + 1 else if even f then f else f + 1)"

definition roundEven :: "real \<Rightarrow> int" where
  "roundEven t = tieToEven \<lfloor>t\<rfloor> (t - of_int \<lfloor>t\<rfloor>)"

definition quantize :: "real \<Rightarrow> real \<Rightarrow> real" where
  "quantize q x = of_int (roundEven (x / q)) * q"

definition roundTo :: "nat \<Rightarrow> int \<Rightarrow> real \<Rightarrow> real" where
  "roundTo p emin x =
     (if x = 0 then 0 else quantize (pow2 (max (expo x) emin - int p + 1)) x)"

definition double :: "real \<Rightarrow> real" where
  "double x = roundTo 53 (- 1022) x"

definition fround :: "real \<Rightarrow> real" where
  "fround x = roundTo 24 (- 126) x"

definition fadd :: "real \<Rightarrow> real \<Rightarrow> real" where
  "fadd x y = double (x + y)"

definition fsub :: "real \<Rightarrow> real \<Rightarrow> real" where
  "fsub x y = double (x - y)"

definition fmul :: "real \<Rightarrow> real \<Rightarrow> real" where
  "fmul x y = double (x * y)"

definition fdiv :: "real \<Rightarrow> real \<Rightarrow> real" where
  "fdiv x y = double (x / y)"

subsection \<open>equalizeLuma\<close>

text \<open>
  Lines 213 to 251 of the source:
  \<^verbatim>\<open>
    const yArr = new Uint8Array(w * h);
    const uArr = new Float32Array(w * h);
    const vArr = new Float32Array(w * h);
    let k = 0;
    for (let i = 0; i < src.length; i += 4, k++) {
      const r = src[i] / 255, g = src[i + 1] / 255, b = src[i + 2] / 255;
      const y = 0.299 * r + 0.587 * g + 0.114 * b;
      const u = -0.14713 * r - 0.28886 * g + 0.436 * b;
      const v = 0.615 * r - 0.51499 * g - 0.10001 * b;
      yArr[k] = Math.round(y * 255);
      uArr[k] = u; vArr[k] = v;
    }
    const hist = new Uint32Array(256);
    for (let i = 0; i < yArr.length; i++) hist[yArr[i]]++;
    const cdf = new Uint32Array(256);
    let cum = 0;
    for (let i = 0; i < 256; i++) { cum += hist[i]; cdf[i] = cum; }
    const cdfMin = cdf.find(v => v > 0) ?? 0;
    const total = w * h;
    const eqY = new Float32Array(w * h);
    for (let i = 0; i < yArr.length; i++) {
      eqY[i] = Math.max(0, Math.min(1,
        (cdf[yArr[i]] - cdfMin) / Math.max(1, total - cdfMin)));
    }
    const dst = new Uint8ClampedArray(src.length);
    for (let i = 0, p = 0; i < dst.length; i += 4, p++) {
      const y = eqY[p];
      const u = uArr[p], v = vArr[p];
      let r = y + 1.13983 * v;
      let g = y - 0.39465 * u - 0.58060 * v;
      let b = y + 2.03211 * u;
      dst[i] = Math.max(0, Math.min(255, Math.round(r * 255)));
      dst[i + 1] = Math.max(0, Math.min(255, Math.round(g * 255)));
      dst[i + 2] = Math.max(0, Math.min(255, Math.round(b * 255)));
      dst[i + 3] = src[i + 3];
    }
    return dst;
  \<close>
  \<open>toYUV\<close> is the first loop (\<open>yuvStep\<close> its body; \<open>norm255\<close> is a sample divided by
  255, \<open>lumaOf\<close>, \<open>chromaU\<close> and \<open>chromaV\<close> are the three weighted sums, evaluated left
  to right; a \<^verbatim>\<open>Uint8Array\<close> store wraps, \<open>word_of_int\<close>, a \<^verbatim>\<open>Float32Array\<close> store
  rounds, \<open>fround\<close>), \<open>histogram\<close> and \<open>cumulative\<close> the next two, on 32-bit words as
  \<^verbatim>\<open>Uint32Array\<close> holds them (\<^verbatim>\<open>cum\<close> is a number, not wrapped, and stays an exact
  integer below \<open>2\<^sup>5\<^sup>3\<close>), \<open>cdfMinOf\<close> the \<^verbatim>\<open>find\<close>, \<open>remap\<close> the loop that fills
  \<^verbatim>\<open>eqY\<close> (\<open>remapValue\<close> the clamped quotient, \<open>equalizedLuma\<close> is \<^verbatim>\<open>eqY\<close>), and
  \<open>rebuild\<close> the last loop (\<open>rebuildPixel\<close> its body, \<open>redOf\<close>, \<open>greenOf\<close> and
  \<open>blueOf\<close> its three sums, \<open>toChannel\<close> the store of a colour channel).
\<close>

definition sample :: "byte list \<Rightarrow> nat \<Rightarrow> real" where
  "sample a i = real (unat (a ! i))"

definition norm255 :: "byte list \<Rightarrow> nat \<Rightarrow> real" where
  "norm255 a i = fdiv (sample a i) 255"

definition lumaOf :: "real \<Rightarrow> real \<Rightarrow> real \<Rightarrow> real" where
  "lumaOf r g b =
     fadd (fadd (fmul (double 0.299) r) (fmul (double 0.587) g)) (fmul (double 0.114) b)"

definition chromaU :: "real \<Rightarrow> real \<Rightarrow> real \<Rightarrow> real" where
  "chromaU r g b =
     fadd (fsub (fmul (- double 0.14713) r) (fmul (double 0.28886) g)) (fmul (double 0.436) b)"

definition chromaV :: "real \<Rightarrow> real \<Rightarrow> real \<Rightarrow> real" where
  "chromaV r g b =
     fsub (fsub (fmul (double 0.615) r) (fmul (double 0.51499) g)) (fmul (double 0.10001) b)"

record yuvArrays =
  yArr :: "byte list"
  uArr :: "real list"
  vArr :: "real list"

definition yuvStep :: "byte list \<Rightarrow> nat \<Rightarrow> yuvArrays \<Rightarrow> yuvArrays" where
  "yuvStep src k st =
     (let i = 4 * k;
          r = norm255 src i; g = norm255 src (i + 1); b = norm255 src (i + 2);
          y = lumaOf r g b; u = chromaU r g b; v = chromaV r g b
      in st\<lparr>yArr := (yArr st)[k := word_of_int (jsRound (fmul y 255))],
            uArr := (uArr st)[k := fround u], vArr := (vArr st)[k := fround v]\<rparr>)"

definition toYUV :: "byte list \<Rightarrow> nat \<Rightarrow> nat \<Rightarrow> yuvArrays" where
  "toYUV src w h =
     fold (yuvStep src) [0..<(length src + 3) div 4]
       \<lparr>yArr = replicate (w * h) 0, uArr = replicate (w * h) 0, vArr = replicate (w * h) 0\<rparr>"

definition histStep :: "byte list \<Rightarrow> nat \<Rightarrow> 32 word list \<Rightarrow> 32 word list" where
  "histStep ys i hist = hist[unat (ys ! i) := hist ! unat (ys ! i) + 1]"

definition histogram :: "byte list \<Rightarrow> 32 word list" where
  "histogram ys = fold (histStep ys) [0..<length ys] (replicate 256 0)"

definition cdfStep :: "32 word list \<Rightarrow> nat \<Rightarrow> nat \<times> 32 word list \<Rightarrow> nat \<times> 32 word list" where
  "cdfStep hist i st =
     (fst st + unat (hist ! i), (snd st)[i := word_of_nat (fst st + unat (hist ! i))])"

definition cumulative :: "32 word list \<Rightarrow> 32 word list" where
  "cumulative hist = snd (fold (cdfStep hist) [0..<256] (0, replicate 256 0))"

definition cdfMinOf :: "32 word list \<Rightarrow> nat" where
  "cdfMinOf cdf = (case find (\<lambda>v. v > 0) cdf of None \<Rightarrow> 0 | Some v \<Rightarrow> unat v)"

definition remapValue :: "real \<Rightarrow> real \<Rightarrow> real \<Rightarrow> real" where
  "remapValue c cdfMin total' =
     max 0 (min 1 (fdiv (fsub c cdfMin) (max 1 (fsub total' cdfMin))))"

definition remapStep :: "byte list \<Rightarrow> 32 word list \<Rightarrow> nat \<Rightarrow> real \<Rightarrow> nat \<Rightarrow> real list \<Rightarrow> real list" where
  "remapStep ys cdf cdfMin total' i eqY =
     eqY[i := fround (remapValue (real (unat (cdf ! unat (ys ! i)))) (real cdfMin) total')]"

definition remap :: "byte list \<Rightarrow> 32 word list \<Rightarrow> nat \<Rightarrow> nat \<Rightarrow> real list" where
  "remap ys cdf w h =
     fold (remapStep ys cdf (cdfMinOf cdf) (fmul (real w) (real h))) [0..<length ys]
       (replicate (w * h) 0)"

definition equalizedLuma :: "byte list \<Rightarrow> nat \<Rightarrow> nat \<Rightarrow> real list" where
  "equalizedLuma src w h =
     remap (yArr (toYUV src w h)) (cumulative (histogram (yArr (toYUV src w h)))) w h"

definition redOf :: "real \<Rightarrow> real \<Rightarrow> real" where
  "redOf y v = fadd y (fmul (double 1.13983) v)"

definition greenOf :: "real \<Rightarrow> real \<Rightarrow> real \<Rightarrow> real" where
  "greenOf y u v = fsub (fsub y (fmul (double 0.39465) u)) (fmul (double 0.58060) v)"

definition blueOf :: "real \<Rightarrow> real \<Rightarrow> real" where
  "blueOf y u = fadd y (fmul (double 2.03211) u)"

definition toChannel :: "real \<Rightarrow> byte" where
  "toChannel v = toUint8Clamp (Some (clamp255 (jsRound (fmul v 255))))"

definition rebuildPixel :: "byte list \<Rightarrow> real list \<Rightarrow> real list \<Rightarrow> real list \<Rightarrow> nat \<Rightarrow> byte list \<Rightarrow> byte list" where
  "rebuildPixel src eqY us vs p d =
     (let i = 4 * p;
          y = eqY ! p; u = us ! p; v = vs ! p;
          r = redOf y v;
          g = greenOf y u v;
          b = blueOf y u
      in d[i := toChannel r, i + 1 := toChannel g, i + 2 := toChannel b, i + 3 := src ! (i + 3)])"

definition rebuild :: "byte list \<Rightarrow> real list \<Rightarrow> yuvArrays \<Rightarrow> byte list" where
  "rebuild src eqY st =
     fold (rebuildPixel src eqY (uArr st) (vArr st)) [0..<(length src + 3) div 4]
       (replicate (length src) 0)"

definition equalizeLuma :: "byte list \<Rightarrow> nat \<Rightarrow> nat \<Rightarrow> byte list" where
  "equalizeLuma src w h = rebuild src (equalizedLuma src w h) (toYUV src w h)"

subsection \<open>computeMetrics\<close>

text \<open>
  Lines 75 to 139 of the source. The grey values and the variance of the Laplacian:
  \<^verbatim>\<open>
    const gray = new Float32Array(data.width * data.height);
    for (let i = 0, j = 0; i < data.data.length; i += 4, j += 1) {
      const r = data.data[i];
      const g = data.data[i + 1];
      const b = data.data[i + 2];
      gray[j] = 0.299 * r + 0.587 * g + 0.114 * b;
    }
    const w = data.width, h = data.height;
    const lap = new Float32Array(w * h);
    let mean = 0;
    let count = 0;
    const idx = (x: number, y: number) => y * w + x;
    for (let y = 1; y < h - 1; y++) {
      for (let x = 1; x < w - 1; x++) {
        const v = -gray[idx(x - 1, y)] - gray[idx(x + 1, y)] - gray[idx(x, y - 1)]
          - gray[idx(x, y + 1)] + 4 * gray[idx(x, y)];
        lap[idx(x, y)] = v;
        mean += v;
        count++;
      }
    }
    mean /= Math.max(1, count);
    let variance = 0;
    for (let i = 0; i < lap.length; i++) {
      const dv = lap[i] - mean;
      variance += dv * dv;
    }
    variance /= Math.max(1, count);
  \<close>
  The gradient energy, with \<^verbatim>\<open>gx\<close> and \<^verbatim>\<open>gy\<close> the two Sobel sums as in \<open>sobelStep\<close>:
  \<^verbatim>\<open>
    let gradEnergy = 0;
    for (let y = 1; y < h - 1; y++) {
      for (let x = 1; x < w - 1; x++) {
        const gx = ...; const gy = ...;
        gradEnergy += Math.hypot(gx, gy);
      }
    }
    gradEnergy /= Math.max(1, (w - 2) * (h - 2));
  \<close>
  The symmetry score and the record returned:
  \<^verbatim>\<open>
    const mid = Math.floor(w / 2);
    let sym = 0, pix = 0;
    for (let y = 0; y < h; y++) {
      for (let x = 0; x < mid; x++) {
        const a = gray[idx(x, y)];
        const b = gray[idx(w - 1 - x, y)];
        sym += 1 - Math.min(1, Math.abs(a - b) / 255);
        pix++;
      }
    }
    const symmetryScore = sym / Math.max(1, pix);
    const blurNorm = Math.min(1, variance / 2000);
    const gradNorm = Math.min(1, gradEnergy / 50);
    const symNorm = symmetryScore; // already 0..1
    const spoofRisk = Math.min(1, 0.6 * (1 - blurNorm) + 0.3 * gradNorm + 0.1 * symNorm);
    return { blurVariance: variance, gradientEnergy: gradEnergy, symmetryScore, spoofRisk };
  \<close>
  \<open>grayscale\<close> is the array \<^verbatim>\<open>gray\<close>; \<open>laplacianPass\<close> the nested loop that fills
  \<^verbatim>\<open>lap\<close>, \<^verbatim>\<open>mean\<close> and \<^verbatim>\<open>count\<close>; \<open>varianceOf\<close> the division of the mean, the
  variance loop and its division; \<open>sobelEnergy\<close> and \<open>symmetry\<close> the next two blocks;
  \<open>assemble\<close> the last five lines.
\<close>

record ImageData =
  width :: nat
  height :: nat
  data :: "byte list"

record Metrics =
  blurVariance :: real
  gradientEnergy :: real
  symmetryScore :: real
  spoofRisk :: real

definition grayStep :: "byte list \<Rightarrow> nat \<Rightarrow> real list \<Rightarrow> real list" where
  "grayStep a j gray =
     (let i = 4 * j;
          r = sample a i; g = sample a (i + 1); b = sample a (i + 2)
      in gray[j := 0.299 * r + 0.587 * g + 0.114 * b])"

definition grayscale :: "ImageData \<Rightarrow> real list" where
  "grayscale d =
     fold (grayStep (data d)) [0..<(length (data d) + 3) div 4]
       (replicate (width d * height d) 0)"

definition idx :: "nat \<Rightarrow> nat \<Rightarrow> nat \<Rightarrow> nat" where
  "idx w x y = y * w + x"

record lapState =
  lap :: "real list"
  mean :: real
  count :: nat

definition lapStep :: "real list \<Rightarrow> nat \<Rightarrow> nat \<Rightarrow> nat \<Rightarrow> lapState \<Rightarrow> lapState" where
  "lapStep gray w y x s =
     (let v = - gray ! idx w (x - 1) y - gray ! idx w (x + 1) y - gray ! idx w x (y - 1)
                - gray ! idx w x (y + 1) + 4 * gray ! idx w x y
      in s\<lparr>lap := (lap s)[idx w x y := v], mean := mean s + v, count := count s + 1\<rparr>)"

definition laplacianPass :: "real list \<Rightarrow> nat \<Rightarrow> nat \<Rightarrow> lapState" where
  "laplacianPass gray w h =
     fold (\<lambda>y. fold (lapStep gray w y) [1..<w - 1]) [1..<h - 1]
       \<lparr>lap = replicate (w * h) 0, mean = 0, count = 0\<rparr>"

definition varianceStep :: "real \<Rightarrow> real list \<Rightarrow> nat \<Rightarrow> real \<Rightarrow> real" where
  "varianceStep m lp i variance = (let dv = lp ! i - m in variance + dv * dv)"

definition varianceOf :: "lapState \<Rightarrow> real" where
  "varianceOf s =
     fold (varianceStep (mean s / real (max 1 (count s))) (lap s)) [0..<length (lap s)] 0
       / real (max 1 (count s))"

definition laplacianVariance :: "real list \<Rightarrow> nat \<Rightarrow> nat \<Rightarrow> real" where
  "laplacianVariance gray w h = varianceOf (laplacianPass gray w h)"

definition sobelStep :: "real list \<Rightarrow> nat \<Rightarrow> nat \<Rightarrow> nat \<Rightarrow> real \<Rightarrow> real" where
  "sobelStep gray w y x gradEnergy =
     (let gx = - gray ! idx w (x - 1) (y - 1) - 2 * gray ! idx w (x - 1) y
                 - gray ! idx w (x - 1) (y + 1) + gray ! idx w (x + 1) (y - 1)
                 + 2 * gray ! idx w (x + 1) y + gray ! idx w (x + 1) (y + 1);
          gy = - gray ! idx w (x - 1) (y - 1) - 2 * gray ! idx w x (y - 1)
                 - gray ! idx w (x + 1) (y - 1) + gray ! idx w (x - 1) (y + 1)
                 + 2 * gray ! idx w x (y + 1) + gray ! idx w (x + 1) (y + 1)
      in gradEnergy + sqrt (gx * gx + gy * gy))"

definition sobelEnergy :: "real list \<Rightarrow> nat \<Rightarrow> nat \<Rightarrow> real" where
  "sobelEnergy gray w h =
     fold (\<lambda>y. fold (sobelStep gray w y) [1..<w - 1]) [1..<h - 1] 0
       / real_of_int (max 1 ((int w - 2) * (int h - 2)))"

definition symStep :: "real list \<Rightarrow> nat \<Rightarrow> nat \<Rightarrow> nat \<Rightarrow> real \<times> nat \<Rightarrow> real \<times> nat" where
  "symStep gray w y x st =
     (let a = gray ! idx w x y;
          b = gray ! idx w (w - 1 - x) y
      in (fst st + (1 - min 1 (\<bar>a - b\<bar> / 255)), snd st + 1))"

definition symScore :: "real \<times> nat \<Rightarrow> real" where
  "symScore st = fst st / real (max 1 (snd st))"

definition symmetry :: "real list \<Rightarrow> nat \<Rightarrow> nat \<Rightarrow> real" where
  "symmetry gray w h =
     symScore (fold (\<lambda>y. fold (symStep gray w y) [0..<w div 2]) [0..<h] (0, 0))"

definition assemble :: "real \<Rightarrow> real \<Rightarrow> real \<Rightarrow> Metrics" where
  "assemble variance gradEnergy symScore' =
     (let blurNorm = min 1 (variance / 2000);
          gradNorm = min 1 (gradEnergy / 50);
          symNorm = symScore';
          risk = min 1 (0.6 * (1 - blurNorm) + 0.3 * gradNorm + 0.1 * symNorm)
      in \<lparr>blurVariance = variance, gradientEnergy = gradEnergy,
          symmetryScore = symScore', spoofRisk = risk\<rparr>)"

definition computeMetrics :: "ImageData \<Rightarrow> Metrics" where
  "computeMetrics d =
     assemble (laplacianVariance (grayscale d) (width d) (height d))
       (sobelEnergy (grayscale d) (width d) (height d))
       (symmetry (grayscale d) (width d) (height d))"

definition wfImage :: "ImageData \<Rightarrow> bool" where
  "wfImage d \<longleftrightarrow> 1 \<le> width d \<and> 1 \<le> height d \<and> length (data d) = 4 * width d * height d"

subsection \<open>Reference definitions, in the words of the specification\<close>

text \<open>
  The population variance of the Laplacian over the interior pixels
  \<open>1 \<le> x < w - 1\<close>, \<open>1 \<le> y < h - 1\<close>, as the specification words it.
\<close>

definition laplacianAt :: "real list \<Rightarrow> nat \<Rightarrow> nat \<Rightarrow> nat \<Rightarrow> real" where
  "laplacianAt gray w y x =
     4 * gray ! idx w x y - gray ! idx w (x - 1) y - gray ! idx w (x + 1) y
       - gray ! idx w x (y - 1) - gray ! idx w x (y + 1)"

definition laplacianRow :: "real list \<Rightarrow> nat \<Rightarrow> nat \<Rightarrow> real list" where
  "laplacianRow gray w y = map (laplacianAt gray w y) [1..<w - 1]"

definition interiorLaplacian :: "real list \<Rightarrow> nat \<Rightarrow> nat \<Rightarrow> real list" where
  "interiorLaplacian gray w h = concat (map (laplacianRow gray w) [1..<h - 1])"

definition squaredDeviation :: "real \<Rightarrow> real \<Rightarrow> real" where
  "squaredDeviation m v = (v - m) * (v - m)"

definition populationVariance :: "real list \<Rightarrow> real" where
  "populationVariance vs =
     sum_list (map (squaredDeviation (sum_list vs / real (length vs))) vs) / real (length vs)"

definition specBlurVariance :: "ImageData \<Rightarrow> real" where
  "specBlurVariance d = populationVariance (interiorLaplacian (grayscale d) (width d) (height d))"

text \<open>
  The separable box mean with edge replication, as the specification words it: each
  output sample is the rounded mean of the \<open>2 * r + 1\<close> samples centred on its own
  position, coordinates outside the line replaced by the nearest edge coordinate.
  \<open>windowSum f n x r\<close> adds \<open>f\<close> over the window centred on \<open>x\<close> in a line of \<open>n\<close>
  samples.
\<close>

definition windowSum :: "(nat \<Rightarrow> int) \<Rightarrow> nat \<Rightarrow> int \<Rightarrow> nat \<Rightarrow> int" where
  "windowSum f n x r = sum_list (map (\<lambda>k. f (clampCoord n k)) [x - int r..x + int r])"

definition windowMean :: "(nat \<Rightarrow> int) \<Rightarrow> nat \<Rightarrow> int \<Rightarrow> nat \<Rightarrow> byte" where
  "windowMean f n x r =
     toUint8Clamp (Some (jsRound (real_of_int (windowSum f n x r) / real (2 * r + 1))))"

definition rowSample :: "byte list \<Rightarrow> nat \<Rightarrow> nat \<Rightarrow> nat \<Rightarrow> nat \<Rightarrow> int" where
  "rowSample a w y c k = uint (a ! idx3 w k y c)"

definition colSample :: "byte list \<Rightarrow> nat \<Rightarrow> nat \<Rightarrow> nat \<Rightarrow> nat \<Rightarrow> int" where
  "colSample a w x c k = uint (a ! idx3 w x k c)"

definition specHorizontalAt :: "byte list \<Rightarrow> nat \<Rightarrow> nat \<Rightarrow> nat \<Rightarrow> byte" where
  "specHorizontalAt a w r i =
     windowMean (rowSample a w ((i div 4) div w) (i mod 4)) w (int ((i div 4) mod w)) r"

definition specVerticalAt :: "byte list \<Rightarrow> nat \<Rightarrow> nat \<Rightarrow> nat \<Rightarrow> nat \<Rightarrow> byte" where
  "specVerticalAt a w h r i =
     windowMean (colSample a w ((i div 4) mod w) (i mod 4)) h (int ((i div 4) div w)) r"

definition specBoxBlur :: "byte list \<Rightarrow> nat \<Rightarrow> nat \<Rightarrow> nat \<Rightarrow> byte list" where
  "specBoxBlur a w h r =
     map (specVerticalAt (map (specHorizontalAt a w r) [0..<length a]) w h r) [0..<length a]"

text \<open>
  The luma and chroma of pixel \<open>p\<close> of a buffer: \<open>Y = 0.299 R + 0.587 G + 0.114 B\<close>,
  \<open>U = -0.14713 R - 0.28886 G + 0.436 B\<close> and \<open>V = 0.615 R - 0.51499 G - 0.10001 B\<close> on
  samples normalised to 0..1. \<open>lumaBin\<close> is the luma quantised to 8 bits, the index of
  the pixel's histogram bin; \<open>pixelU\<close> and \<open>pixelV\<close> are the chrominance computed from
  the pixel's samples, the doubles held by the variables \<^verbatim>\<open>u\<close> and \<^verbatim>\<open>v\<close> of the first
  loop. \<open>exactU\<close> and \<open>exactV\<close> are the same weighted sums without any rounding.
\<close>

definition lumaBin :: "byte list \<Rightarrow> nat \<Rightarrow> byte" where
  "lumaBin src p =
     word_of_int (jsRound (fmul
       (lumaOf (norm255 src (4 * p)) (norm255 src (4 * p + 1)) (norm255 src (4 * p + 2))) 255))"

definition pixelU :: "byte list \<Rightarrow> nat \<Rightarrow> real" where
  "pixelU src p = chromaU (norm255 src (4 * p)) (norm255 src (4 * p + 1)) (norm255 src (4 * p + 2))"

definition pixelV :: "byte list \<Rightarrow> nat \<Rightarrow> real" where
  "pixelV src p = chromaV (norm255 src (4 * p)) (norm255 src (4 * p + 1)) (norm255 src (4 * p + 2))"

definition exactU :: "byte list \<Rightarrow> nat \<Rightarrow> real" where
  "exactU src p =
     - 0.14713 * (sample src (4 * p) / 255) - 0.28886 * (sample src (4 * p + 1) / 255)
       + 0.436 * (sample src (4 * p + 2) / 255)"

definition exactV :: "byte list \<Rightarrow> nat \<Rightarrow> real" where
  "exactV src p =
     0.615 * (sample src (4 * p) / 255) - 0.51499 * (sample src (4 * p + 1) / 255)
       - 0.10001 * (sample src (4 * p + 2) / 255)"

subsection \<open>Pointwise descriptions of the arrays written by the loops\<close>

text \<open>
  What \<^verbatim>\<open>median3x3\<close> and the last loop of \<^verbatim>\<open>equalizeLuma\<close> store at index \<open>j\<close> of their
  result, as a function of the index alone; the loops are shown to compute them.
\<close>

definition medianAt :: "byte list \<Rightarrow> nat \<Rightarrow> nat \<Rightarrow> nat \<Rightarrow> byte" where
  "medianAt src w h j =
     (if j mod 4 < 3
      then sort (neighbourhood src w h ((j div 4) mod w) ((j div 4) div w) (j mod 4)) ! 4
      else src ! j)"

definition rebuiltAt :: "byte list \<Rightarrow> real list \<Rightarrow> real list \<Rightarrow> real list \<Rightarrow> nat \<Rightarrow> byte" where
  "rebuiltAt src eqY us vs j =
     (if j mod 4 = 0 then toChannel (redOf (eqY ! (j div 4)) (vs ! (j div 4)))
      else if j mod 4 = 1
        then toChannel (greenOf (eqY ! (j div 4)) (us ! (j div 4)) (vs ! (j div 4)))
      else if j mod 4 = 2 then toChannel (blueOf (eqY ! (j div 4)) (us ! (j div 4)))
      else src ! j)"

subsection \<open>The line pass of boxBlur, described\<close>

text \<open>
  \<open>linePos\<close> is the index of the \<open>k\<close>-th sample of a line, \<open>lineSample\<close> its value.
  \<open>laggedMean\<close> is the rounded mean of the edge-replicated window centred one position
  before \<open>x\<close>; \<open>lagHorizontalAt\<close>, \<open>lagVerticalAt\<close> and \<open>laggedBoxBlur\<close> are the reference
  definitions above with every window centred one position earlier. \<open>lineInv\<close> is the
  invariant of the three loops of a line after \<open>t\<close> stores.
\<close>

definition linePos :: "int \<Rightarrow> int \<Rightarrow> nat \<Rightarrow> int" where
  "linePos start stride k = start + int k * stride"

definition lineSample :: "byte list \<Rightarrow> int \<Rightarrow> int \<Rightarrow> nat \<Rightarrow> int" where
  "lineSample a start stride k = uint (a ! nat (linePos start stride k))"

definition laggedMean :: "byte list \<Rightarrow> int \<Rightarrow> int \<Rightarrow> nat \<Rightarrow> nat \<Rightarrow> nat \<Rightarrow> byte" where
  "laggedMean a start stride n r x = windowMean (lineSample a start stride) n (int x - 1) r"

definition lineOk :: "byte list \<Rightarrow> int \<Rightarrow> int \<Rightarrow> nat \<Rightarrow> nat \<Rightarrow> bool" where
  "lineOk a start stride n r \<longleftrightarrow>
     0 \<le> start \<and> 0 < stride \<and> 2 * r + 1 \<le> n \<and> linePos start stride (n - 1) < int (length a)"

definition lagHorizontalAt :: "byte list \<Rightarrow> nat \<Rightarrow> nat \<Rightarrow> nat \<Rightarrow> byte" where
  "lagHorizontalAt a w r i =
     windowMean (rowSample a w ((i div 4) div w) (i mod 4)) w (int ((i div 4) mod w) - 1) r"

definition lagVerticalAt :: "byte list \<Rightarrow> nat \<Rightarrow> nat \<Rightarrow> nat \<Rightarrow> nat \<Rightarrow> byte" where
  "lagVerticalAt a w h r i =
     windowMean (colSample a w ((i div 4) mod w) (i mod 4)) h (int ((i div 4) div w) - 1) r"

definition laggedBoxBlur :: "byte list \<Rightarrow> nat \<Rightarrow> nat \<Rightarrow> nat \<Rightarrow> byte list" where
  "laggedBoxBlur a w h r =
     map (lagVerticalAt (map (lagHorizontalAt a w r) [0..<length a]) w h r) [0..<length a]"

definition lineInv ::
  "byte list \<Rightarrow> byte list \<Rightarrow> int \<Rightarrow> int \<Rightarrow> nat \<Rightarrow> nat \<Rightarrow> nat \<Rightarrow> lineState \<Rightarrow> bool" where
  "lineInv a out start stride n r t s \<longleftrightarrow>
     ti s = linePos start stride t
     \<and> li s = linePos start stride (t - (r + 1))
     \<and> ri s = linePos start stride (r + min t (n - r))
     \<and> val s = Some (windowSum (lineSample a start stride) n (int t - 1) r)
     \<and> length (buf s) = length out
     \<and> (\<forall>x<t. buf s ! nat (linePos start stride x) = laggedMean a start stride n r x)
     \<and> (\<forall>j. (\<forall>x<n. j \<noteq> nat (linePos start stride x)) \<longrightarrow> buf s ! j = out ! j)"

subsection \<open>Concrete images\<close>

definition centreDot :: ImageData where
  "centreDot = \<lparr>width = 3, height = 3, data =
     [0, 0, 0, 255,  0, 0, 0, 255,  0, 0, 0, 255,
      0, 0, 0, 255,  255, 255, 255, 255,  0, 0, 0, 255,
      0, 0, 0, 255,  0, 0, 0, 255,  0, 0, 0, 255]\<rparr>"

definition onePixel :: ImageData where
  "onePixel = \<lparr>width = 1, height = 1, data = [120, 130, 140, 255]\<rparr>"

definition twoPixels :: "byte list" where
  "twoPixels = [10, 20, 30, 255,  200, 210, 220, 255]"

definition ramp :: "byte list" where
  "ramp = [0, 0, 0, 255,  90, 0, 0, 255,  180, 0, 0, 255,
           0, 0, 0, 255,  90, 0, 0, 255,  180, 0, 0, 255,
           0, 0, 0, 255,  90, 0, 0, 255,  180, 0, 0, 255]"

definition fourPixels :: "byte list" where
  "fourPixels = [10, 20, 30, 255,  200, 210, 220, 254,  50, 60, 70, 253,  90, 100, 110, 252]"

definition threeTone :: "byte list" where
  "threeTone = [10, 20, 30, 255,  100, 150, 120, 128,  200, 210, 220, 200]"

definition flatPair :: "byte list" where
  "flatPair = [200, 210, 220, 255,  200, 210, 220, 255]"

definition tealPixel :: "byte list" where
  "tealPixel = [4, 201, 187, 255]"

definition flatOrange :: "byte list" where
  "flatOrange = [255, 120, 51, 255,  255, 120, 51, 255]"

definition nearTie :: "byte list" where
  "nearTie = [0, 12, 4, 255,  8, 8, 8, 255]"

text \<open>
  The entry at flat index \<open>i\<close> of the \<^verbatim>\<open>lap\<close> array after the Laplacian loop of
  \<^verbatim>\<open>computeMetrics\<close>: the Laplacian at an interior pixel, and the initial 0 of the
  \<^verbatim>\<open>Float32Array\<close> on the border, which the loop never visits.
\<close>

definition lapAt :: "real list \<Rightarrow> nat \<Rightarrow> nat \<Rightarrow> nat \<Rightarrow> real" where
  "lapAt gray w h i =
     (if 1 \<le> i mod w \<and> i mod w < w - 1 \<and> 1 \<le> i div w \<and> i div w < h - 1
      then laplacianAt gray w (i div w) (i mod w) else 0)"

section \<open>Loops that write an array\<close>

lemma fold_writes_nth:
  assumes len: "\<And>k d. length d = n \<Longrightarrow> length (B k d) = n"
    and frame: "\<And>k d i. k \<in> set ks \<Longrightarrow> length d = n \<Longrightarrow> i < n \<Longrightarrow> i \<notin> T k \<Longrightarrow> B k d ! i = d ! i"
    and effect: "\<And>k d i. k \<in> set ks \<Longrightarrow> length d = n \<Longrightarrow> i \<in> T k \<Longrightarrow> i < n \<Longrightarrow> B k d ! i = F i"
    and d: "length d = n" and i: "i < n"
  shows "fold B ks d ! i = (if \<exists>k\<in>set ks. i \<in> T k then F i else d ! i)"
  using frame effect d
proof (induction ks arbitrary: d)
  case Nil
  then show ?case by simp
next
  case (Cons k ks)
  have "fold B ks (B k d) ! i = (if \<exists>k\<in>set ks. i \<in> T k then F i else B k d ! i)"
    by (rule Cons.IH) (use Cons.prems len in auto)
  moreover have "B k d ! i = (if i \<in> T k then F i else d ! i)"
    using Cons.prems(1)[of k d i] Cons.prems(2)[of k d i] Cons.prems(3) i by simp
  ultimately show ?case by simp
qed

lemma fold_length:
  assumes "\<And>k d. length (B k d) = length d"
  shows "length (fold B ks d) = length d"
  by (induction ks arbitrary: d) (simp_all add: assms)

lemma fold_steps:
  assumes step: "\<And>t s. t0 \<le> t \<Longrightarrow> t < t0 + length xs \<Longrightarrow> I t s \<Longrightarrow> I (Suc t) (S s)"
    and init: "I t0 s"
  shows "I (t0 + length xs) (fold (\<lambda>x. S) xs s)"
  using assms
proof (induction xs arbitrary: t0 s)
  case Nil
  then show ?case by simp
next
  case (Cons x xs)
  have "I (Suc t0 + length xs) (fold (\<lambda>x. S) xs (S s))"
    by (rule Cons.IH) (use Cons.prems in auto)
  then show ?case by simp
qed

lemma fold_fixed:
  assumes "\<And>k. k \<in> set ks \<Longrightarrow> B k d = d"
  shows "fold B ks d = d"
  using assms by (induction ks) simp_all

section \<open>Index arithmetic and numbers\<close>

lemma idx3_decode:
  assumes "x < w" "c < 4"
  shows "idx3 w x y c div 4 = y * w + x" "idx3 w x y c mod 4 = c"
    "(idx3 w x y c div 4) mod w = x" "(idx3 w x y c div 4) div w = y"
proof -
  define p where "p = y * w + x"
  have "(p * 4 + c) div 4 = p" "(p * 4 + c) mod 4 = c"
    using assms(2) by simp_all
  then show a: "idx3 w x y c div 4 = y * w + x" and "idx3 w x y c mod 4 = c"
    by (simp_all add: idx3_def p_def)
  show "(idx3 w x y c div 4) mod w = x" "(idx3 w x y c div 4) div w = y"
    unfolding a using assms(1) by simp_all
qed

lemma idx3_encode: "idx3 w ((j div 4) mod w) ((j div 4) div w) (j mod 4) = j"
proof -
  have "(j div 4) div w * w + (j div 4) mod w = j div 4"
    by simp
  then show ?thesis
    by (simp add: idx3_def)
qed

lemma idx3_less:
  assumes "x < w" "y < h" "c < 4"
  shows "idx3 w x y c < 4 * w * h"
proof -
  have "y * w + x < (y + 1) * w" using assms(1) by simp
  also have "\<dots> \<le> h * w" using assms(2) by (intro mult_le_mono1) simp
  finally show ?thesis using assms(3) by (simp add: idx3_def mult.commute)
qed

lemma row_of_index:
  fixes j w h :: nat
  assumes "j < 4 * w * h"
  shows "(j div 4) div w < h" "0 < w \<Longrightarrow> (j div 4) mod w < w" "j mod 4 < 4"
proof -
  have "j div 4 < w * h" using assms by simp
  then show "(j div 4) div w < h"
    by (simp add: less_mult_imp_div_less mult.commute)
qed simp_all

lemma idx3_step: "idx3 w x y c = idx3 w x y 0 + c"
  by (simp add: idx3_def)

lemma quad_decode:
  "(4 * p + 1) div 4 = p" "(4 * p + 2) div 4 = p" "(4 * p + 3) div 4 = p"
  "(4 * p + 1) mod 4 = 1" "(4 * p + 2) mod 4 = 2" "(4 * p + 3) mod 4 = 3"
  for p :: nat
  by presburger+

lemma pixel_count: "length src = 4 * w * h \<Longrightarrow> (length src + 3) div 4 = w * h"
  by simp

lemma clampCoord_low: "k \<le> 0 \<Longrightarrow> clampCoord n k = 0"
  by (simp add: clampCoord_def)

lemma clampCoord_mid: "0 \<le> k \<Longrightarrow> k < int n \<Longrightarrow> clampCoord n k = nat k"
  by (simp add: clampCoord_def)

lemma clampCoord_high: "0 < n \<Longrightarrow> int n - 1 \<le> k \<Longrightarrow> clampCoord n k = n - 1"
  by (auto simp: clampCoord_def)

lemma clampCoord_less: "0 < n \<Longrightarrow> clampCoord n k < n"
  by (auto simp: clampCoord_def)

lemma upto_0_2: "[0..2] = [0, 1, 2::int]"
  by (simp add: upto_rec1)

lemma upto_0_3: "[0..3] = [0, 1, 2, 3::int]"
  by (simp add: upto_rec1)

lemma upto_m1_1: "[-1..1] = [-1, 0, 1::int]"
  by (simp add: upto_rec1)

lemma jsRound_of_int: "jsRound (real_of_int k) = k"
  unfolding jsRound_def by linarith

lemma clamp255_uint: "clamp255 (uint (b::byte)) = uint b"
  using uint_lt2p[of b] by (simp add: clamp255_def)

lemma toUint8Clamp_uint: "toUint8Clamp (Some (uint (b::byte))) = b"
  by (simp add: toUint8Clamp_def clamp255_uint)

text \<open>
  The reads of \<^verbatim>\<open>median3x3\<close>, \<^verbatim>\<open>equalizeLuma\<close> and \<^verbatim>\<open>computeMetrics\<close> stay inside their
  arrays on an image of \<open>4 * w * h\<close> samples: the clamped neighbours of a pixel, the
  samples of pixel \<open>k\<close>, and in the grey array of \<open>w * h\<close> values the nine neighbours of an
  interior pixel and the two pixels of a mirrored pair.
\<close>

lemma idx_less:
  assumes "x < w" "y < h"
  shows "idx w x y < w * h"
proof -
  have "y * w + x < (y + 1) * w" using assms(1) by simp
  also have "\<dots> \<le> h * w" using assms(2) by (intro mult_le_mono1) simp
  finally show ?thesis by (simp add: idx_def mult.commute)
qed

lemma neighbour_in_range:
  assumes "length src = 4 * w * h" and "x < w" and "y < h" and "c < 4"
  shows "idx3 w (clampCoord w (int x + i)) (clampCoord h (int y + j)) c < length src"
  unfolding assms(1) using assms(2-4) by (intro idx3_less clampCoord_less) simp_all

lemma interior_in_range:
  assumes "1 \<le> x" "x < w - 1" "1 \<le> y" "y < h - 1" "dx \<le> 2" "dy \<le> 2"
  shows "idx w (x - 1 + dx) (y - 1 + dy) < w * h"
  using assms by (intro idx_less) simp_all

lemma mirror_in_range:
  assumes "x < w div 2" "y < h"
  shows "idx w x y < w * h" "idx w (w - 1 - x) y < w * h"
  using assms by (auto intro!: idx_less)

lemma pixel_in_range:
  assumes "length a = 4 * n" "k < n" "c < 4"
  shows "4 * k + c < length a"
  using assms by simp

section \<open>Properties of the metrics engine\<close>

lemma fold_add_sum: "fold (\<lambda>i (v::real). v + f i) xs a = a + sum_list (map f xs)"
  by (induction xs arbitrary: a) simp_all

lemma sum_list_zero: "(\<And>x. x \<in> set xs \<Longrightarrow> f x = (0::real)) \<Longrightarrow> sum_list (map f xs) = 0"
  by (induction xs) simp_all

lemma blurVariance_eq:
  "blurVariance (computeMetrics d) = laplacianVariance (grayscale d) (width d) (height d)"
  by (simp add: computeMetrics_def assemble_def Let_def)

lemma gradientEnergy_eq:
  "gradientEnergy (computeMetrics d) = sobelEnergy (grayscale d) (width d) (height d)"
  by (simp add: computeMetrics_def assemble_def Let_def)

lemma symmetryScore_eq:
  "symmetryScore (computeMetrics d) = symmetry (grayscale d) (width d) (height d)"
  by (simp add: computeMetrics_def assemble_def Let_def)

lemma spoofRisk_eq:
  "spoofRisk (computeMetrics d) =
     min 1 (0.6 * (1 - min 1 (laplacianVariance (grayscale d) (width d) (height d) / 2000))
            + 0.3 * min 1 (sobelEnergy (grayscale d) (width d) (height d) / 50)
            + 0.1 * symmetry (grayscale d) (width d) (height d))"
  by (simp add: computeMetrics_def assemble_def Let_def)

lemma fold_varianceStep:
  "fold (varianceStep m lp) js a = a + sum_list (map (\<lambda>i. (lp ! i - m) * (lp ! i - m)) js)"
  by (induction js arbitrary: a) (simp_all add: varianceStep_def Let_def)

lemma laplacianVariance_nonneg: "0 \<le> laplacianVariance gray w h"
  unfolding laplacianVariance_def varianceOf_def fold_varianceStep
  by (intro divide_nonneg_nonneg) (auto intro!: sum_list_nonneg)

lemma sobel_fold_nonneg:
  "0 \<le> a \<Longrightarrow> 0 \<le> fold (\<lambda>y. fold (sobelStep gray w y) xs) ys a"
proof (induction ys arbitrary: a)
  case Nil
  then show ?case by simp
next
  case (Cons y ys)
  have inner: "0 \<le> b \<Longrightarrow> 0 \<le> fold (sobelStep gray w y) xs b" for b
    by (induction xs arbitrary: b) (simp_all add: sobelStep_def Let_def)
  from Cons show ?case by (simp add: inner)
qed

lemma sobelEnergy_nonneg: "0 \<le> sobelEnergy gray w h"
  unfolding sobelEnergy_def
  by (intro divide_nonneg_nonneg sobel_fold_nonneg) auto

lemma sym_fold_bounds:
  "0 \<le> fst s \<Longrightarrow> fst s \<le> real (snd s) \<Longrightarrow>
   0 \<le> fst (fold (\<lambda>y. fold (symStep gray w y) xs) ys s) \<and>
   fst (fold (\<lambda>y. fold (symStep gray w y) xs) ys s)
     \<le> real (snd (fold (\<lambda>y. fold (symStep gray w y) xs) ys s))"
proof (induction ys arbitrary: s)
  case Nil
  then show ?case by simp
next
  case (Cons y ys)
  have inner: "0 \<le> fst t \<Longrightarrow> fst t \<le> real (snd t) \<Longrightarrow>
      0 \<le> fst (fold (symStep gray w y) xs t) \<and>
      fst (fold (symStep gray w y) xs t) \<le> real (snd (fold (symStep gray w y) xs t))" for t
  proof (induction xs arbitrary: t)
    case Nil
    then show ?case by simp
  next
    case (Cons x xs)
    define q where "q = min 1 (\<bar>gray ! idx w x y - gray ! idx w (w - 1 - x) y\<bar> / 255)"
    have q: "0 \<le> q" "q \<le> 1"
      by (simp_all add: q_def)
    have "symStep gray w y x t = (fst t + (1 - q), snd t + 1)"
      by (cases t) (simp add: symStep_def Let_def q_def)
    then have "0 \<le> fst (symStep gray w y x t) \<and> fst (symStep gray w y x t) \<le> real (snd (symStep gray w y x t))"
      using Cons.prems q by simp
    then show ?case
      unfolding fold_Cons comp_apply
      by (intro Cons.IH) simp_all
  qed
  show ?case
    unfolding fold_Cons comp_apply
    by (rule Cons.IH) (use inner[OF Cons.prems] in auto)
qed

lemma symmetry_bounds: "0 \<le> symmetry gray w h \<and> symmetry gray w h \<le> 1"
proof -
  obtain sym pix where sp: "fold (\<lambda>y. fold (symStep gray w y) [0..<w div 2]) [0..<h] (0, 0) = (sym, pix)"
    by (cases "fold (\<lambda>y. fold (symStep gray w y) [0..<w div 2]) [0..<h] (0::real, 0::nat)")
  have "0 \<le> sym \<and> sym \<le> real pix"
    using sym_fold_bounds[of "(0, 0)" gray w "[0..<w div 2]" "[0..<h]"] sp by simp
  then have "0 \<le> sym / real (max 1 pix) \<and> sym / real (max 1 pix) \<le> 1"
    by (auto simp: divide_le_eq max_def)
  then show ?thesis by (simp add: symmetry_def symScore_def sp)
qed


lemma wfImage_onePixel: "wfImage onePixel"
  by (simp add: wfImage_def onePixel_def)

text \<open>
  Claim C7. For every image of width and height at least 1, the record returned by
  \<^verbatim>\<open>computeMetrics\<close> has a non-negative blur variance and gradient energy, and a
  symmetry score and a spoof risk between 0 and 1.
\<close>

theorem computeMetrics_bounds:
  assumes "wfImage d"
  shows "0 \<le> blurVariance (computeMetrics d) \<and> 0 \<le> gradientEnergy (computeMetrics d)
       \<and> 0 \<le> symmetryScore (computeMetrics d) \<and> symmetryScore (computeMetrics d) \<le> 1
       \<and> 0 \<le> spoofRisk (computeMetrics d) \<and> spoofRisk (computeMetrics d) \<le> 1"
proof -
  let ?v = "laplacianVariance (grayscale d) (width d) (height d)"
  let ?g = "sobelEnergy (grayscale d) (width d) (height d)"
  let ?s = "symmetry (grayscale d) (width d) (height d)"
  have v: "0 \<le> ?v" by (rule laplacianVariance_nonneg)
  have g: "0 \<le> ?g" by (rule sobelEnergy_nonneg)
  have s: "0 \<le> ?s" "?s \<le> 1" using symmetry_bounds by blast+
  have b: "0 \<le> 1 - min 1 (?v / 2000)" by simp
  have n: "0 \<le> min 1 (?g / 50)" using g by simp
  have "0 \<le> 0.6 * (1 - min 1 (?v / 2000)) + 0.3 * min 1 (?g / 50) + 0.1 * ?s"
    using b n s(1) by (intro add_nonneg_nonneg mult_nonneg_nonneg) simp_all
  then have r: "0 \<le> spoofRisk (computeMetrics d)" "spoofRisk (computeMetrics d) \<le> 1"
    unfolding spoofRisk_eq by simp_all
  show ?thesis
    using v g s r by (simp add: blurVariance_eq gradientEnergy_eq symmetryScore_eq)
qed

lemma wfImage_centreDot: "wfImage centreDot"
  by (simp add: wfImage_def centreDot_def)

theorem computeMetrics_bounds_witness:
  "wfImage centreDot
   \<and> 0 \<le> blurVariance (computeMetrics centreDot) \<and> 0 \<le> gradientEnergy (computeMetrics centreDot)
   \<and> 0 \<le> symmetryScore (computeMetrics centreDot) \<and> symmetryScore (computeMetrics centreDot) \<le> 1
   \<and> 0 \<le> spoofRisk (computeMetrics centreDot) \<and> spoofRisk (computeMetrics centreDot) \<le> 1"
  using computeMetrics_bounds [OF wfImage_centreDot] wfImage_centreDot by simp

text \<open>
  Claim C4. The spoof risk of the returned record is computed from the other three fields
  of the same record: \<open>min 1 (0.6 * (1 - min 1 (blurVariance / 2000)) +
  0.3 * min 1 (gradientEnergy / 50) + 0.1 * symmetryScore)\<close>.
\<close>

theorem spoofRisk_formula:
  assumes "wfImage d"
  shows "spoofRisk (computeMetrics d) =
     min 1 (0.6 * (1 - min 1 (blurVariance (computeMetrics d) / 2000))
            + 0.3 * min 1 (gradientEnergy (computeMetrics d) / 50)
            + 0.1 * symmetryScore (computeMetrics d))"
  by (simp add: computeMetrics_def assemble_def Let_def)

theorem spoofRisk_formula_witness:
  "wfImage centreDot \<and> spoofRisk (computeMetrics centreDot) =
     min 1 (0.6 * (1 - min 1 (blurVariance (computeMetrics centreDot) / 2000))
            + 0.3 * min 1 (gradientEnergy (computeMetrics centreDot) / 50)
            + 0.1 * symmetryScore (computeMetrics centreDot))"
  using spoofRisk_formula [OF wfImage_centreDot] wfImage_centreDot by simp

lemma laplacianPass_degenerate:
  assumes "w < 3 \<or> h < 3"
  shows "laplacianPass gray w h = \<lparr>lap = replicate (w * h) 0, mean = 0, count = 0\<rparr>"
proof (cases "h < 3")
  case True
  then have e: "[1..<h - 1] = []" by simp
  show ?thesis unfolding laplacianPass_def e by simp
next
  case False
  with assms have e: "[1..<w - 1] = []" by simp
  show ?thesis unfolding laplacianPass_def e by (simp add: fold_id)
qed

lemma laplacianVariance_degenerate:
  assumes "w < 3 \<or> h < 3"
  shows "laplacianVariance gray w h = 0"
proof -
  have "sum_list (map (\<lambda>i. (replicate (w * h) (0::real) ! i - 0 / real (max 1 0))
          * (replicate (w * h) 0 ! i - 0 / real (max 1 0))) [0..<w * h]) = 0"
    by (rule sum_list_zero) simp
  then show ?thesis
    by (simp add: laplacianVariance_def varianceOf_def laplacianPass_degenerate[OF assms]
        fold_varianceStep)
qed

lemma sobelEnergy_degenerate:
  assumes "w < 3 \<or> h < 3"
  shows "sobelEnergy gray w h = 0"
proof (cases "h < 3")
  case True
  then have e: "[1..<h - 1] = []" by simp
  show ?thesis unfolding sobelEnergy_def e by simp
next
  case False
  with assms have e: "[1..<w - 1] = []" by simp
  show ?thesis unfolding sobelEnergy_def e by (simp add: fold_id)
qed

text \<open>
  Claim C8. On an image narrower or lower than 3 pixels the interior region is empty:
  \<^verbatim>\<open>computeMetrics\<close> returns (the embedding is total, the source has no failing
  operation) with blur variance 0 and gradient energy 0; on a 1 x 1 image the symmetry
  score is 0 as well, since \<^verbatim>\<open>mid = 0\<close> leaves no pair to compare.
\<close>

theorem degenerate_geometry:
  assumes "wfImage d" and "width d < 3 \<or> height d < 3"
  shows "blurVariance (computeMetrics d) = 0 \<and> gradientEnergy (computeMetrics d) = 0
       \<and> (width d = 1 \<and> height d = 1 \<longrightarrow> symmetryScore (computeMetrics d) = 0)"
proof -
  have "symmetry gray 1 1 = 0" for gray
    by (simp add: symmetry_def symScore_def)
  then show ?thesis
    using assms(2)
    by (auto simp: blurVariance_eq gradientEnergy_eq symmetryScore_eq
        laplacianVariance_degenerate sobelEnergy_degenerate)
qed

theorem degenerate_geometry_witness:
  "wfImage onePixel \<and> (width onePixel < 3 \<or> height onePixel < 3)
   \<and> width onePixel = 1 \<and> height onePixel = 1
   \<and> blurVariance (computeMetrics onePixel) = 0 \<and> gradientEnergy (computeMetrics onePixel) = 0
   \<and> symmetryScore (computeMetrics onePixel) = 0"
  using degenerate_geometry [OF wfImage_onePixel] wfImage_onePixel
  by (simp add: onePixel_def)

text \<open>
  The variance loop of \<^verbatim>\<open>computeMetrics\<close> in closed form, for every image with an
  interior. The loop runs over all \<open>w * h\<close> entries of \<^verbatim>\<open>lap\<close>; each of the
  \<open>2 * w + 2 * h - 4\<close> border entries is 0 and adds the square of the mean. The result
  is the population variance over the interior plus that many squared means divided by
  the interior count.
\<close>

lemma lapStep_eq:
  "lapStep gray w y x s =
     s\<lparr>lap := (lap s)[idx w x y := laplacianAt gray w y x],
       mean := mean s + laplacianAt gray w y x, count := count s + 1\<rparr>"
  by (simp add: lapStep_def laplacianAt_def Let_def algebra_simps)

lemma count_lapRow: "count (fold (lapStep gray w y) xs s) = count s + length xs"
  by (induction xs arbitrary: s) (simp_all add: lapStep_eq)

lemma count_lapPass:
  "count (fold (\<lambda>y. fold (lapStep gray w y) xs) ys s) = count s + length ys * length xs"
  by (induction ys arbitrary: s) (simp_all add: count_lapRow)

lemma mean_lapRow:
  "mean (fold (lapStep gray w y) xs s) = mean s + sum_list (map (laplacianAt gray w y) xs)"
  by (induction xs arbitrary: s) (simp_all add: lapStep_eq)

lemma mean_lapPass:
  "mean (fold (\<lambda>y. fold (lapStep gray w y) xs) ys s) =
     mean s + sum_list (concat (map (\<lambda>y. map (laplacianAt gray w y) xs) ys))"
  by (induction ys arbitrary: s) (simp_all add: mean_lapRow)

lemma lap_lapRow:
  "lap (fold (lapStep gray w y) xs s) =
     fold (\<lambda>x l. l[idx w x y := laplacianAt gray w y x]) xs (lap s)"
  by (induction xs arbitrary: s) (simp_all add: lapStep_eq)

lemma lap_lapPass:
  "lap (fold (\<lambda>y. fold (lapStep gray w y) xs) ys s) =
     fold (\<lambda>y. fold (\<lambda>x l. l[idx w x y := laplacianAt gray w y x]) xs) ys (lap s)"
  by (induction ys arbitrary: s) (simp_all add: lap_lapRow)

lemma idx_decode:
  assumes "x < w"
  shows "idx w x y mod w = x" "idx w x y div w = y"
  using assms by (simp_all add: idx_def)

lemma lapRow_nth:
  assumes "length l = n" "i < n" "1 \<le> y" "y < h - 1"
  shows "fold (\<lambda>x l. l[idx w x y := laplacianAt gray w y x]) [1..<w - 1] l ! i =
           (if i div w = y \<and> 1 \<le> i mod w \<and> i mod w < w - 1 then lapAt gray w h i else l ! i)"
proof -
  have "fold (\<lambda>x l. l[idx w x y := laplacianAt gray w y x]) [1..<w - 1] l ! i =
      (if \<exists>x\<in>set [1..<w - 1]. i \<in> {idx w x y} then lapAt gray w h i else l ! i)"
  proof (rule fold_writes_nth[where n = n])
    show "l[idx w x y := laplacianAt gray w y x] ! j = lapAt gray w h j"
      if "x \<in> set [1..<w - 1]" "length l = n" "j \<in> {idx w x y}" "j < n" for x l j
    proof -
      have x: "x < w" "1 \<le> x" "x < w - 1" using that(1) by auto
      show ?thesis
        using that(2-4) x(2,3) assms(3,4) idx_decode[OF x(1), of y]
        by (simp add: lapAt_def)
    qed
  qed (use assms in auto)
  moreover have "(\<exists>x\<in>set [1..<w - 1]. i \<in> {idx w x y})
      \<longleftrightarrow> (i div w = y \<and> 1 \<le> i mod w \<and> i mod w < w - 1)"
  proof
    assume "\<exists>x\<in>set [1..<w - 1]. i \<in> {idx w x y}"
    then obtain x where x: "1 \<le> x" "x < w - 1" "i = idx w x y" by auto
    then have "x < w" by simp
    from idx_decode[OF this, of y] x show "i div w = y \<and> 1 \<le> i mod w \<and> i mod w < w - 1"
      by simp
  next
    assume a: "i div w = y \<and> 1 \<le> i mod w \<and> i mod w < w - 1"
    then have "i = idx w (i mod w) y"
      by (auto simp: idx_def)
    with a show "\<exists>x\<in>set [1..<w - 1]. i \<in> {idx w x y}"
      by auto
  qed
  ultimately show ?thesis by simp
qed

lemma lapPass_nth:
  assumes "i < w * h"
  shows "lap (laplacianPass gray w h) ! i = lapAt gray w h i"
proof -
  let ?row = "\<lambda>y. fold (\<lambda>x l. l[idx w x y := laplacianAt gray w y x]) [1..<w - 1]"
  have len: "length (?row y l) = length l" for y l
    by (rule fold_length) simp
  have "fold ?row [1..<h - 1] (replicate (w * h) 0) ! i =
      (if \<exists>y\<in>set [1..<h - 1]. i \<in> {j. j div w = y \<and> 1 \<le> j mod w \<and> j mod w < w - 1}
       then lapAt gray w h i else replicate (w * h) 0 ! i)"
  proof (rule fold_writes_nth[where n = "w * h"])
    show "length (?row y l) = w * h" if "length l = w * h" for y l
      using that len by simp
    show "?row y l ! j = l ! j"
      if "y \<in> set [1..<h - 1]" "length l = w * h" "j < w * h"
        "j \<notin> {j. j div w = y \<and> 1 \<le> j mod w \<and> j mod w < w - 1}" for y l j
      using that lapRow_nth[OF that(2,3), of y h w gray] by auto
    show "?row y l ! j = lapAt gray w h j"
      if "y \<in> set [1..<h - 1]" "length l = w * h"
        "j \<in> {j. j div w = y \<and> 1 \<le> j mod w \<and> j mod w < w - 1}" "j < w * h" for y l j
      using that lapRow_nth[OF that(2,4), of y h w gray] by auto
  qed (use assms in simp_all)
  moreover have "(\<exists>y\<in>set [1..<h - 1]. i \<in> {j. j div w = y \<and> 1 \<le> j mod w \<and> j mod w < w - 1})
      \<longleftrightarrow> (1 \<le> i mod w \<and> i mod w < w - 1 \<and> 1 \<le> i div w \<and> i div w < h - 1)"
    by auto
  ultimately show ?thesis
    using assms by (auto simp: laplacianPass_def lap_lapPass lapAt_def)
qed


lemma upt_rows: "concat (map (\<lambda>y. map (\<lambda>x. y * w + x) [0..<w]) [0..<h]) = [0..<h * w]"
proof (induction h)
  case 0
  show ?case by simp
next
  case (Suc h)
  have "map (\<lambda>x. h * w + x) [0..<w] = [h * w..<h * w + w]"
    using map_add_upt[of "h * w" w] by (simp add: add.commute)
  moreover have "[0..<h * w + w] = [0..<h * w] @ [h * w..<h * w + w]"
    using upt_add_eq_append[of 0 "h * w" w] by simp
  ultimately show ?case
    using Suc by (simp add: add.commute)
qed

lemma sum_list_rows:
  "sum_list (map G [0..<h * w]) =
     sum_list (map (\<lambda>y. sum_list (map (\<lambda>x. G (y * w + x)) [0..<w])) [0..<h])"
  for G :: "nat \<Rightarrow> real"
proof -
  have "sum_list (map G (concat (map (\<lambda>y. map (\<lambda>x. y * w + x) [0..<w]) ys))) =
      sum_list (map (\<lambda>y. sum_list (map (\<lambda>x. G (y * w + x)) [0..<w])) ys)" for ys
    by (induction ys) (simp_all add: comp_def)
  then show ?thesis
    unfolding upt_rows[symmetric] .
qed

lemma upt_ends:
  assumes "2 \<le> n"
  shows "[0..<n] = 0 # [1..<n - 1] @ [n - 1]"
proof -
  have "[0..<n] = 0 # [1..<n]"
    using assms by (simp add: upt_rec)
  moreover have "[1..<n] = [1..<n - 1] @ [n - 1]"
    using assms upt_Suc_append[of 1 "n - 1"] by simp
  ultimately show ?thesis by simp
qed

lemma lapAt_row:
  assumes "x < w"
  shows "lapAt gray w h (y * w + x) =
     (if 1 \<le> x \<and> x < w - 1 \<and> 1 \<le> y \<and> y < h - 1 then laplacianAt gray w y x else 0)"
  using assms by (simp add: lapAt_def)

lemma border_row_sum:
  assumes "\<not> (1 \<le> y \<and> y < h - 1)"
  shows "sum_list (map (\<lambda>x. (lapAt gray w h (y * w + x) - m) * (lapAt gray w h (y * w + x) - m)) [0..<w])
           = real w * (m * m)"
proof -
  have eq: "map (\<lambda>x. (lapAt gray w h (y * w + x) - m) * (lapAt gray w h (y * w + x) - m)) [0..<w]
      = map (\<lambda>x. m * m) [0..<w]"
    using assms by (intro map_cong) (auto simp: lapAt_row)
  show ?thesis
    unfolding eq by (simp add: sum_list_triv)
qed

lemma interior_row_sum:
  assumes "1 \<le> y" "y < h - 1" "3 \<le> w"
  shows "sum_list (map (\<lambda>x. (lapAt gray w h (y * w + x) - m) * (lapAt gray w h (y * w + x) - m)) [0..<w])
           = 2 * (m * m) + sum_list (map (squaredDeviation m) (laplacianRow gray w y))"
proof -
  have e: "[0..<w] = 0 # [1..<w - 1] @ [w - 1]"
    using assms(3) by (intro upt_ends) simp
  have mid: "map (\<lambda>x. (lapAt gray w h (y * w + x) - m) * (lapAt gray w h (y * w + x) - m)) [1..<w - 1]
      = map (squaredDeviation m) (laplacianRow gray w y)"
    unfolding laplacianRow_def map_map
    using assms by (intro map_cong) (auto simp: lapAt_row squaredDeviation_def)
  have first: "lapAt gray w h (y * w + 0) = 0"
    using assms(3) by (subst lapAt_row) simp_all
  have last: "lapAt gray w h (y * w + (w - 1)) = 0"
    using assms(3) by (subst lapAt_row) simp_all
  show ?thesis
    unfolding e by (simp only: list.map map_append sum_list.Cons sum_list_append mid first last)
      (simp add: algebra_simps)
qed


lemma length_interiorLaplacian: "length (interiorLaplacian gray w h) = (h - 2) * (w - 2)"
proof -
  have "length (concat (map (laplacianRow gray w) ys)) = length ys * (w - 2)" for ys
    by (induction ys) (simp_all add: laplacianRow_def)
  from this[of "[1..<h - 1]"] show ?thesis
    by (simp add: interiorLaplacian_def numeral_2_eq_2)
qed

lemma interior_sum:
  assumes "3 \<le> w"
  shows "sum_list (map (\<lambda>y. sum_list (map (\<lambda>x. (lapAt gray w h (y * w + x) - m)
             * (lapAt gray w h (y * w + x) - m)) [0..<w])) [1..<h - 1])
         = real (h - 2) * (2 * (m * m))
           + sum_list (map (squaredDeviation m) (interiorLaplacian gray w h))"
proof -
  have "sum_list (map (\<lambda>y. sum_list (map (\<lambda>x. (lapAt gray w h (y * w + x) - m)
             * (lapAt gray w h (y * w + x) - m)) [0..<w])) ys)
         = real (length ys) * (2 * (m * m))
           + sum_list (map (squaredDeviation m) (concat (map (laplacianRow gray w) ys)))"
    if "\<forall>y\<in>set ys. 1 \<le> y \<and> y < h - 1" for ys
    using that
  proof (induction ys)
    case Nil
    show ?case by simp
  next
    case (Cons y ys)
    then have y: "1 \<le> y" "y < h - 1" by simp_all
    show ?case
      using Cons interior_row_sum[OF y assms, of gray m]
      by (simp add: algebra_simps)
  qed
  from this[of "[1..<h - 1]"] show ?thesis
    by (simp add: interiorLaplacian_def numeral_2_eq_2)
qed

theorem laplacianVariance_closed_form:
  assumes w: "3 \<le> w" and h: "3 \<le> h"
    and n: "n = (w - 2) * (h - 2)"
    and m: "m = sum_list (interiorLaplacian gray w h) / real n"
  shows "laplacianVariance gray w h =
           populationVariance (interiorLaplacian gray w h)
             + real (2 * w + 2 * h - 4) * (m * m) / real n"
proof -
  let ?s = "laplacianPass gray w h"
  have "0 < w - 2" "0 < h - 2"
    using w h by simp_all
  then have "0 < (w - 2) * (h - 2)"
    by (rule mult_pos_pos)
  then have n0: "0 < n" "max 1 n = n" "max (Suc 0) n = n"
    unfolding n by linarith+
  have cnt: "count ?s = n"
    using w h by (simp add: laplacianPass_def count_lapPass n mult.commute numeral_2_eq_2)
  have mn: "mean ?s = sum_list (interiorLaplacian gray w h)"
    by (simp add: laplacianPass_def mean_lapPass interiorLaplacian_def laplacianRow_def[abs_def])
  have len: "length (lap ?s) = w * h"
    unfolding laplacianPass_def lap_lapPass
    by (rule trans[OF fold_length]) (simp_all add: fold_length)
  have "map (\<lambda>i. (lap ?s ! i - m) * (lap ?s ! i - m)) [0..<w * h] =
      map (\<lambda>i. (lapAt gray w h i - m) * (lapAt gray w h i - m)) [0..<w * h]"
    by (intro map_cong) (simp_all add: lapPass_nth)
  then have "sum_list (map (\<lambda>i. (lap ?s ! i - m) * (lap ?s ! i - m)) [0..<w * h]) =
      sum_list (map (\<lambda>i. (lapAt gray w h i - m) * (lapAt gray w h i - m)) [0..<w * h])"
    by (rule arg_cong)
  then have "fold (varianceStep m (lap ?s)) [0..<w * h] 0 =
      sum_list (map (\<lambda>i. (lapAt gray w h i - m) * (lapAt gray w h i - m)) [0..<h * w])"
    unfolding fold_varianceStep mult.commute[of w h] by (simp only: add_0)
  also have "\<dots> = sum_list (map (\<lambda>y. sum_list (map (\<lambda>x. (lapAt gray w h (y * w + x) - m)
             * (lapAt gray w h (y * w + x) - m)) [0..<w])) [0..<h])"
    by (rule sum_list_rows)
  also have "\<dots> = real w * (m * m)
      + (real (h - 2) * (2 * (m * m))
         + sum_list (map (squaredDeviation m) (interiorLaplacian gray w h)))
      + real w * (m * m)"
  proof -
    have e: "[0..<h] = 0 # [1..<h - 1] @ [h - 1]"
      using h by (intro upt_ends) simp
    have b0: "\<not> (1 \<le> (0::nat) \<and> 0 < h - 1)" by simp
    have b1: "\<not> (1 \<le> h - 1 \<and> h - 1 < h - 1)" by simp
    show ?thesis
      unfolding e
      by (simp only: list.map map_append sum_list.Cons sum_list_append
          border_row_sum[OF b0] border_row_sum[OF b1] interior_sum[OF w]) simp
  qed
  finally have total: "fold (varianceStep m (lap ?s)) [0..<w * h] 0 =
      sum_list (map (squaredDeviation m) (interiorLaplacian gray w h))
        + real (2 * w + 2 * h - 4) * (m * m)"
    using w h by (simp add: algebra_simps of_nat_diff)
  have pv: "populationVariance (interiorLaplacian gray w h) =
      sum_list (map (squaredDeviation m) (interiorLaplacian gray w h)) / real n"
    by (simp add: populationVariance_def length_interiorLaplacian m n mult.commute)
  have "laplacianVariance gray w h =
      fold (varianceStep m (lap ?s)) [0..<w * h] 0 / real n"
    by (simp add: laplacianVariance_def varianceOf_def cnt mn len n0 m)
  then show ?thesis
    unfolding total pv by (simp add: add_divide_distrib)
qed

text \<open>
  Claim C1. The specification asks for the population variance of the Laplacian over the
  interior pixels only. The source takes the mean over the interior pixels, but its
  variance loop runs over the whole \<^verbatim>\<open>lap\<close> array, whose border entries were never
  written and are 0, and still divides by the interior count. On the 3 x 3 image with a
  white centre on black the interior is the single centre pixel, with Laplacian 1020:
  the variance over the interior is 0, the source returns \<open>8 * 1020\<^sup>2\<close>.
\<close>

theorem blurVariance_counts_border:
  "blurVariance (computeMetrics centreDot) = 8323200 \<and> specBlurVariance centreDot = 0"
proof -
  have g: "grayscale centreDot = [0, 0, 0, 0, 255, 0, 0, 0, 0]"
    unfolding centreDot_def by code_simp
  have "laplacianVariance [0, 0, 0, 0, 255, 0, 0, 0, 0] 3 3 = 8323200"
    by code_simp
  moreover have "populationVariance (interiorLaplacian [0, 0, 0, 0, 255, 0, 0, 0, 0] 3 3) = 0"
    by code_simp
  moreover have "width centreDot = 3" "height centreDot = 3"
    by (simp_all add: centreDot_def)
  ultimately show ?thesis
    by (simp add: blurVariance_eq specBlurVariance_def g)
qed

section \<open>Properties of boxBlur\<close>

lemma length_wr: "length (wr a i v) = length a"
  by (simp add: wr_def)

lemma fold_buf_length:
  assumes "\<And>s. length (buf (step s)) = length (buf s)"
  shows "length (buf (fold (\<lambda>x. step) xs s)) = length (buf s)"
  by (induction xs arbitrary: s) (simp_all add: assms)

lemma length_blurLine: "length (blurLine a out start stride n r lastIdx) = length out"
  unfolding blurLine_def
  by (simp add: fold_buf_length leadStep_def midStep_def tailStep_def emit_def length_wr)

lemma length_horizontalPass: "length (horizontalPass src tmp w h r) = length tmp"
  unfolding horizontalPass_def
  by (intro fold_length) (simp add: horizontalLine_def length_blurLine)

lemma length_verticalPass: "length (verticalPass tmp dst w h r) = length dst"
  unfolding verticalPass_def
  by (intro fold_length) (simp add: verticalLine_def length_blurLine)

lemma length_boxBlur: "length (boxBlur src w h r) = length src"
  by (simp add: boxBlur_def length_verticalPass)

lemma windowSum_step:
  "windowSum f n (t + 1) r =
     windowSum f n t r + f (clampCoord n (t + 1 + int r)) - f (clampCoord n (t - int r))"
proof -
  have a: "[t - int r..t + int r] = (t - int r) # [t - int r + 1..t + int r]"
    by (rule upto_rec1) simp
  have b: "[t + 1 - int r..t + 1 + int r] = [t - int r + 1..t + int r] @ [t + 1 + int r]"
    using upto_rec2[of "t - int r + 1" "t + 1 + int r"] by (simp add: algebra_simps)
  show ?thesis
    unfolding windowSum_def a b by simp
qed

lemma sum_list_const_upto:
  assumes "\<And>k. k \<in> set ks \<Longrightarrow> g k = c"
  shows "sum_list (map g ks) = int (length ks) * (c::int)"
  using assms by (induction ks) (simp_all add: algebra_simps)

lemma windowSum_init:
  assumes "r < n"
  shows "windowSum f n (- 1) r = (int r + 1) * f 0 + sum_list (map (\<lambda>j. f (nat j)) [0..int r - 1])"
proof -
  have split: "[- 1 - int r..- 1 + int r] = [- 1 - int r..- 1] @ [0..int r - 1]"
    using upto_split2[of "- 1 - int r" "-1" "int r - 1"] by simp
  have lo: "sum_list (map (\<lambda>k. f (clampCoord n k)) [- 1 - int r..- 1]) = (int r + 1) * f 0"
    using sum_list_const_upto[of "[- 1 - int r..- 1]" "\<lambda>k. f (clampCoord n k)" "f 0"]
    by (simp add: clampCoord_low)
  have hi: "map (\<lambda>k. f (clampCoord n k)) [0..int r - 1] = map (\<lambda>j. f (nat j)) [0..int r - 1]"
    using assms by (intro map_cong) (simp_all add: clampCoord_mid)
  show ?thesis
    unfolding windowSum_def by (simp only: split map_append sum_list_append lo hi)
qed


lemma linePos_inj:
  assumes "0 < stride" "0 \<le> start"
  shows "nat (linePos start stride x) = nat (linePos start stride y) \<longleftrightarrow> x = y"
proof -
  have "0 \<le> linePos start stride x" "0 \<le> linePos start stride y"
    using assms by (simp_all add: linePos_def)
  then have "nat (linePos start stride x) = nat (linePos start stride y)
      \<longleftrightarrow> linePos start stride x = linePos start stride y"
    by (simp add: nat_eq_iff)
  also have "\<dots> \<longleftrightarrow> x = y"
    using assms(1) by (simp add: linePos_def)
  finally show ?thesis .
qed

lemma linePos_mono:
  assumes "0 < stride" "x \<le> y"
  shows "linePos start stride x \<le> linePos start stride y"
  using assms by (simp add: linePos_def mult_right_mono)

lemma rd_line:
  assumes "lineOk a start stride n r" "k < n"
  shows "rd a (linePos start stride k) = Some (lineSample a start stride k)"
proof -
  have "linePos start stride k \<le> linePos start stride (n - 1)"
    using assms by (intro linePos_mono) (simp_all add: lineOk_def)
  moreover have "0 \<le> linePos start stride k"
    using assms(1) by (simp add: lineOk_def linePos_def)
  ultimately show ?thesis
    using assms(1) by (simp add: rd_def lineSample_def lineOk_def)
qed

lemma linePos_Suc: "linePos start stride (Suc k) = linePos start stride k + stride"
  by (simp add: linePos_def algebra_simps)

lemma emit_mean:
  "toUint8Clamp (map_option (\<lambda>v. jsRound (real_of_int v * iarr r))
      (Some (windowSum (lineSample a start stride) n (int t - 1) r))) =
   laggedMean a start stride n r t"
  by (simp add: laggedMean_def windowMean_def iarr_def)

lemma emit_inv:
  assumes ok: "lineOk a start stride n r" and t: "t < n"
    and inv: "lineInv a out start stride n r t s"
    and len: "length out = length a"
  shows "length (emit r s) = length out"
    and "\<forall>x<Suc t. emit r s ! nat (linePos start stride x) = laggedMean a start stride n r x"
    and "\<forall>j. (\<forall>x<n. j \<noteq> nat (linePos start stride x)) \<longrightarrow> emit r s ! j = out ! j"
proof -
  have pos: "0 \<le> linePos start stride t"
    using ok by (simp add: lineOk_def linePos_def)
  have "linePos start stride t \<le> linePos start stride (n - 1)"
    using ok t by (intro linePos_mono) (simp_all add: lineOk_def)
  moreover have "linePos start stride (n - 1) < int (length a)"
    using ok by (simp add: lineOk_def)
  ultimately have "linePos start stride t < int (length a)"
    by linarith
  moreover have "length (buf s) = length a"
    using inv len by (simp add: lineInv_def)
  ultimately have inb: "nat (linePos start stride t) < length (buf s)"
    using pos by (simp add: nat_less_iff)
  have e: "emit r s = (buf s)[nat (linePos start stride t) := laggedMean a start stride n r t]"
    using inv pos emit_mean[of r a start stride n t]
    by (simp add: emit_def wr_def lineInv_def)
  show "length (emit r s) = length out"
    using inv by (simp add: e lineInv_def)
  show "\<forall>x<Suc t. emit r s ! nat (linePos start stride x) = laggedMean a start stride n r x"
  proof (intro allI impI)
    fix x assume x: "x < Suc t"
    show "emit r s ! nat (linePos start stride x) = laggedMean a start stride n r x"
    proof (cases "x = t")
      case True
      then show ?thesis using inb by (simp add: e)
    next
      case False
      then have "nat (linePos start stride t) \<noteq> nat (linePos start stride x)"
        using linePos_inj[of stride start t x] ok by (simp add: lineOk_def)
      moreover have "x < t" using x False by simp
      ultimately show ?thesis
        using inv by (simp add: e lineInv_def)
    qed
  qed
  show "\<forall>j. (\<forall>x<n. j \<noteq> nat (linePos start stride x)) \<longrightarrow> emit r s ! j = out ! j"
  proof (intro allI impI)
    fix j assume j: "\<forall>x<n. j \<noteq> nat (linePos start stride x)"
    then have "j \<noteq> nat (linePos start stride t)"
      using t by blast
    moreover have "buf s ! j = out ! j"
      using inv j by (simp add: lineInv_def)
    ultimately show "emit r s ! j = out ! j"
      by (simp add: e)
  qed
qed


lemma window_advance0:
  "windowSum f n (int t) r =
     windowSum f n (int t - 1) r + (f (clampCoord n (int t + int r)) - f (clampCoord n (int t - 1 - int r)))"
  using windowSum_step[of f n "int t - 1" r] by simp

lemma lineInvD:
  assumes "lineInv a out start stride n r t s"
  shows "ti s = linePos start stride t"
    and "li s = linePos start stride (t - (r + 1))"
    and "ri s = linePos start stride (r + min t (n - r))"
    and "val s = Some (windowSum (lineSample a start stride) n (int t - 1) r)"
  using assms by (simp_all add: lineInv_def)

lemma lineInvI:
  assumes "ti s = linePos start stride t"
    and "li s = linePos start stride (t - (r + 1))"
    and "ri s = linePos start stride (r + min t (n - r))"
    and "val s = Some (windowSum (lineSample a start stride) n (int t - 1) r)"
    and "length (buf s) = length out"
    and "\<forall>x<t. buf s ! nat (linePos start stride x) = laggedMean a start stride n r x"
    and "\<forall>j. (\<forall>x<n. j \<noteq> nat (linePos start stride x)) \<longrightarrow> buf s ! j = out ! j"
  shows "lineInv a out start stride n r t s"
  using assms by (simp add: lineInv_def)

lemma leadStep_inv:
  assumes ok: "lineOk a start stride n r" and t: "t \<le> r"
    and inv: "lineInv a out start stride n r t s"
    and len: "length out = length a"
  shows "lineInv a out start stride n r (Suc t) (leadStep a stride r (rd a start) s)"
proof -
  have n: "2 * r + 1 \<le> n" using ok by (simp add: lineOk_def)
  have tn: "t < n" using t n by simp
  note e = emit_inv[OF ok tn inv len]
  note d = lineInvD[OF inv]
  have m: "min t (n - r) = t" "min (Suc t) (n - r) = Suc t" "t - (r + 1) = 0" "Suc t - (r + 1) = 0"
    using t n by simp_all
  have fv: "rd a start = Some (lineSample a start stride 0)"
    using rd_line[OF ok, of 0] n by (simp add: linePos_def)
  have rv: "rd a (ri s) = Some (lineSample a start stride (r + t))"
    unfolding d(3) m using t n by (intro rd_line[OF ok]) simp
  have c1: "clampCoord n (int t + int r) = r + t"
    using t n clampCoord_mid[of "int t + int r" n] by (simp add: nat_add_distrib)
  have c2: "clampCoord n (int t - 1 - int r) = 0"
    using t by (intro clampCoord_low) simp
  have v: "numAdd (val s) (numSub (rd a (ri s)) (rd a start)) =
      Some (windowSum (lineSample a start stride) n (int (Suc t) - 1) r)"
    using window_advance0[of "lineSample a start stride" n t r]
    by (simp add: d(4) numAdd_def numSub_def rv fv c1 c2)
  show ?thesis
  proof (rule lineInvI)
    show "ti (leadStep a stride r (rd a start) s) = linePos start stride (Suc t)"
      by (simp add: leadStep_def d(1) linePos_Suc)
    show "li (leadStep a stride r (rd a start) s) = linePos start stride (Suc t - (r + 1))"
      using t by (simp add: leadStep_def d(2))
    show "ri (leadStep a stride r (rd a start) s) = linePos start stride (r + min (Suc t) (n - r))"
      unfolding m by (simp add: leadStep_def d(3) m linePos_def algebra_simps)
    show "val (leadStep a stride r (rd a start) s) =
        Some (windowSum (lineSample a start stride) n (int (Suc t) - 1) r)"
      using v by (simp add: leadStep_def)
    show "length (buf (leadStep a stride r (rd a start) s)) = length out"
      using e(1) by (simp add: leadStep_def)
    show "\<forall>x<Suc t. buf (leadStep a stride r (rd a start) s) ! nat (linePos start stride x) =
        laggedMean a start stride n r x"
      using e(2) by (simp add: leadStep_def)
    show "\<forall>j. (\<forall>x<n. j \<noteq> nat (linePos start stride x)) \<longrightarrow>
        buf (leadStep a stride r (rd a start) s) ! j = out ! j"
      using e(3) by (simp add: leadStep_def)
  qed
qed

lemma midStep_inv:
  assumes ok: "lineOk a start stride n r" and t: "r + 1 \<le> t" "t < n - r"
    and inv: "lineInv a out start stride n r t s"
    and len: "length out = length a"
  shows "lineInv a out start stride n r (Suc t) (midStep a stride r s)"
proof -
  have n: "2 * r + 1 \<le> n" using ok by (simp add: lineOk_def)
  have tn: "t < n" using t by simp
  note e = emit_inv[OF ok tn inv len]
  note d = lineInvD[OF inv]
  have m: "min t (n - r) = t" "min (Suc t) (n - r) = Suc t"
    using t by simp_all
  have rv: "rd a (ri s) = Some (lineSample a start stride (r + t))"
    unfolding d(3) m using t by (intro rd_line[OF ok]) simp
  have lv: "rd a (li s) = Some (lineSample a start stride (t - (r + 1)))"
    unfolding d(2) using t by (intro rd_line[OF ok]) simp
  have c1: "clampCoord n (int t + int r) = r + t"
    using t clampCoord_mid[of "int t + int r" n] by (simp add: nat_add_distrib)
  have c2: "clampCoord n (int t - 1 - int r) = t - (r + 1)"
    using t clampCoord_mid[of "int t - 1 - int r" n] by (simp add: nat_diff_distrib)
  have v: "numAdd (val s) (numSub (rd a (ri s)) (rd a (li s))) =
      Some (windowSum (lineSample a start stride) n (int (Suc t) - 1) r)"
    using window_advance0[of "lineSample a start stride" n t r]
    by (simp add: d(4) numAdd_def numSub_def rv lv c1 c2)
  have "Suc (t - (r + 1)) = Suc t - (r + 1)"
    using t by simp
  then have l': "linePos start stride (t - (r + 1)) + stride = linePos start stride (Suc t - (r + 1))"
    using linePos_Suc[of start stride "t - (r + 1)"] by simp
  show ?thesis
  proof (rule lineInvI)
    show "ti (midStep a stride r s) = linePos start stride (Suc t)"
      by (simp add: midStep_def d(1) linePos_Suc)
    show "li (midStep a stride r s) = linePos start stride (Suc t - (r + 1))"
      using l' by (simp add: midStep_def d(2))
    show "ri (midStep a stride r s) = linePos start stride (r + min (Suc t) (n - r))"
      unfolding m by (simp add: midStep_def d(3) m linePos_def algebra_simps)
    show "val (midStep a stride r s) =
        Some (windowSum (lineSample a start stride) n (int (Suc t) - 1) r)"
      using v by (simp add: midStep_def)
    show "length (buf (midStep a stride r s)) = length out"
      using e(1) by (simp add: midStep_def)
    show "\<forall>x<Suc t. buf (midStep a stride r s) ! nat (linePos start stride x) =
        laggedMean a start stride n r x"
      using e(2) by (simp add: midStep_def)
    show "\<forall>j. (\<forall>x<n. j \<noteq> nat (linePos start stride x)) \<longrightarrow>
        buf (midStep a stride r s) ! j = out ! j"
      using e(3) by (simp add: midStep_def)
  qed
qed

lemma tailStep_inv:
  assumes ok: "lineOk a start stride n r" and t: "n - r \<le> t" "t < n"
    and inv: "lineInv a out start stride n r t s"
    and len: "length out = length a"
    and last: "lastIdx = linePos start stride (n - 1)"
  shows "lineInv a out start stride n r (Suc t) (tailStep a stride r (rd a lastIdx) s)"
proof -
  have n: "2 * r + 1 \<le> n" using ok by (simp add: lineOk_def)
  note e = emit_inv[OF ok t(2) inv len]
  note d = lineInvD[OF inv]
  have m: "min t (n - r) = n - r" "min (Suc t) (n - r) = n - r"
    using t by simp_all
  have tr: "r + 1 \<le> t" using t n by simp
  have lastv: "rd a lastIdx = Some (lineSample a start stride (n - 1))"
    unfolding last using n by (intro rd_line[OF ok]) simp
  have lv: "rd a (li s) = Some (lineSample a start stride (t - (r + 1)))"
    unfolding d(2) using t by (intro rd_line[OF ok]) simp
  have c1: "clampCoord n (int t + int r) = n - 1"
    using t n by (intro clampCoord_high) simp_all
  have c2: "clampCoord n (int t - 1 - int r) = t - (r + 1)"
    using t tr clampCoord_mid[of "int t - 1 - int r" n] by (simp add: nat_diff_distrib)
  have v: "numAdd (val s) (numSub (rd a lastIdx) (rd a (li s))) =
      Some (windowSum (lineSample a start stride) n (int (Suc t) - 1) r)"
    using window_advance0[of "lineSample a start stride" n t r]
    by (simp add: d(4) numAdd_def numSub_def lastv lv c1 c2)
  have "Suc (t - (r + 1)) = Suc t - (r + 1)"
    using tr by simp
  then have l': "linePos start stride (t - (r + 1)) + stride = linePos start stride (Suc t - (r + 1))"
    using linePos_Suc[of start stride "t - (r + 1)"] by simp
  show ?thesis
  proof (rule lineInvI)
    show "ti (tailStep a stride r (rd a lastIdx) s) = linePos start stride (Suc t)"
      by (simp add: tailStep_def d(1) linePos_Suc)
    show "li (tailStep a stride r (rd a lastIdx) s) = linePos start stride (Suc t - (r + 1))"
      using l' by (simp add: tailStep_def d(2))
    show "ri (tailStep a stride r (rd a lastIdx) s) = linePos start stride (r + min (Suc t) (n - r))"
      unfolding m by (simp add: tailStep_def d(3) m)
    show "val (tailStep a stride r (rd a lastIdx) s) =
        Some (windowSum (lineSample a start stride) n (int (Suc t) - 1) r)"
      using v by (simp add: tailStep_def)
    show "length (buf (tailStep a stride r (rd a lastIdx) s)) = length out"
      using e(1) by (simp add: tailStep_def)
    show "\<forall>x<Suc t. buf (tailStep a stride r (rd a lastIdx) s) ! nat (linePos start stride x) =
        laggedMean a start stride n r x"
      using e(2) by (simp add: tailStep_def)
    show "\<forall>j. (\<forall>x<n. j \<noteq> nat (linePos start stride x)) \<longrightarrow>
        buf (tailStep a stride r (rd a lastIdx) s) ! j = out ! j"
      using e(3) by (simp add: tailStep_def)
  qed
qed


lemma prime_fold:
  assumes ok: "lineOk a start stride n r"
    and js: "\<forall>j\<in>set js. 0 \<le> j \<and> j < int n"
  shows "fold (primeStep a start stride) js (Some v) =
           Some (v + sum_list (map (\<lambda>j. lineSample a start stride (nat j)) js))"
  using js
proof (induction js arbitrary: v)
  case Nil
  then show ?case by simp
next
  case (Cons j js)
  then have j: "0 \<le> j" "nat j < n" by (simp_all add: nat_less_iff)
  have "rd a (start + j * stride) = Some (lineSample a start stride (nat j))"
    using rd_line[OF ok j(2)] j(1) by (simp add: linePos_def)
  then have "primeStep a start stride j (Some v) = Some (v + lineSample a start stride (nat j))"
    by (simp add: primeStep_def numAdd_def)
  then show ?case
    using Cons by (simp add: algebra_simps)
qed

lemma initVal_window:
  assumes ok: "lineOk a start stride n r"
  shows "initVal a start stride r = Some (windowSum (lineSample a start stride) n (- 1) r)"
proof -
  have n: "2 * r + 1 \<le> n" using ok by (simp add: lineOk_def)
  have fv: "rd a start = Some (lineSample a start stride 0)"
    using rd_line[OF ok, of 0] n by (simp add: linePos_def)
  have "\<forall>j\<in>set [0..int r - 1]. 0 \<le> j \<and> j < int n"
    using n by auto
  then have "fold (primeStep a start stride) [0..int r - 1]
        (Some ((int r + 1) * lineSample a start stride 0)) =
      Some ((int r + 1) * lineSample a start stride 0
        + sum_list (map (\<lambda>j. lineSample a start stride (nat j)) [0..int r - 1]))"
    by (rule prime_fold[OF ok])
  moreover have "r < n" using n by simp
  ultimately show ?thesis
    unfolding initVal_def fv windowSum_init[OF \<open>r < n\<close>] by (simp add: numMul_def)
qed

lemma blurLine_lagged:
  assumes ok: "lineOk a start stride n r"
    and len: "length out = length a"
    and last: "lastIdx = linePos start stride (n - 1)"
  shows "length (blurLine a out start stride (int n) r lastIdx) = length out"
    and "\<forall>x<n. blurLine a out start stride (int n) r lastIdx ! nat (linePos start stride x) =
           laggedMean a start stride n r x"
    and "\<forall>j. (\<forall>x<n. j \<noteq> nat (linePos start stride x)) \<longrightarrow>
           blurLine a out start stride (int n) r lastIdx ! j = out ! j"
proof -
  have n: "2 * r + 1 \<le> n" using ok by (simp add: lineOk_def)
  let ?I = "lineInv a out start stride n r"
  let ?s0 = "\<lparr>buf = out, ti = start, li = start, ri = start + int r * stride,
             val = initVal a start stride r\<rparr>"
  let ?s1 = "fold (\<lambda>x. leadStep a stride r (rd a start)) [0..int r] ?s0"
  let ?s2 = "fold (\<lambda>x. midStep a stride r) [int r + 1..int n - int r - 1] ?s1"
  let ?s3 = "fold (\<lambda>x. tailStep a stride r (rd a lastIdx)) [int n - int r..int n - 1] ?s2"
  have i0: "?I 0 ?s0"
    using n by (intro lineInvI) (simp_all add: initVal_window[OF ok] linePos_def)
  have e1: "0 + length [0..int r] = r + 1"
    by simp
  have e2: "(r + 1) + length [int r + 1..int n - int r - 1] = n - r"
    using n by simp
  have e3: "(n - r) + length [int n - int r..int n - 1] = n"
    using n by simp
  have "?I (0 + length [0..int r]) ?s1"
    by (rule fold_steps[where I = ?I, OF _ i0]) (use leadStep_inv[OF ok _ _ len] in simp)
  then have i1: "?I (r + 1) ?s1"
    by (simp only: e1)
  have "?I ((r + 1) + length [int r + 1..int n - int r - 1]) ?s2"
    by (rule fold_steps[where I = ?I, OF _ i1]) (use midStep_inv[OF ok _ _ _ len] e2 in simp)
  then have i2: "?I (n - r) ?s2"
    by (simp only: e2)
  have "?I ((n - r) + length [int n - int r..int n - 1]) ?s3"
    by (rule fold_steps[where I = ?I, OF _ i2]) (use tailStep_inv[OF ok _ _ _ len last] e3 in simp)
  then have i3: "?I n ?s3"
    by (simp only: e3)
  have b: "blurLine a out start stride (int n) r lastIdx = buf ?s3"
    by (simp add: blurLine_def)
  show "length (blurLine a out start stride (int n) r lastIdx) = length out"
    and "\<forall>x<n. blurLine a out start stride (int n) r lastIdx ! nat (linePos start stride x) =
           laggedMean a start stride n r x"
    and "\<forall>j. (\<forall>x<n. j \<noteq> nat (linePos start stride x)) \<longrightarrow>
           blurLine a out start stride (int n) r lastIdx ! j = out ! j"
    using i3 unfolding b lineInv_def by blast+
qed


lemma horizontalLine_nth:
  assumes len: "length src = 4 * w * h" and tmp: "length tmp = length src"
    and r: "2 * r + 1 \<le> w" and y: "y < h" and c: "c < 4" and j: "j < length src"
  shows "length (horizontalLine src w r (int y) (int c) tmp) = length tmp"
    and "horizontalLine src w r (int y) (int c) tmp ! j =
           (if (j div 4) div w = y \<and> j mod 4 = c then lagHorizontalAt src w r j else tmp ! j)"
proof -
  let ?start = "int (idx3 w 0 y c)"
  have w: "0 < w" using r by simp
  have pos: "nat (linePos ?start 4 x) = idx3 w x y c" for x
    by (simp add: linePos_def idx3_def nat_add_distrib nat_mult_distrib)
  have "idx3 w (w - 1) y c < length src"
    unfolding len using w y c by (intro idx3_less) simp_all
  then have ok: "lineOk src ?start 4 w r"
    using r pos[of "w - 1"] by (simp add: lineOk_def linePos_def)
  have h: "horizontalLine src w r (int y) (int c) tmp =
      blurLine src tmp ?start 4 (int w) r (linePos ?start 4 (w - 1))"
    using w by (simp add: horizontalLine_def idx3_def linePos_def of_nat_diff algebra_simps)
  note b = blurLine_lagged[OF ok tmp refl]
  show "length (horizontalLine src w r (int y) (int c) tmp) = length tmp"
    unfolding h by (rule b(1))
  have f: "lineSample src ?start 4 = rowSample src w y c"
    by (rule ext) (simp add: lineSample_def rowSample_def pos)
  show "horizontalLine src w r (int y) (int c) tmp ! j =
      (if (j div 4) div w = y \<and> j mod 4 = c then lagHorizontalAt src w r j else tmp ! j)"
  proof (cases "(j div 4) div w = y \<and> j mod 4 = c")
    case True
    let ?x = "(j div 4) mod w"
    have x: "?x < w" using w by simp
    have jx: "j = idx3 w ?x y c"
      using idx3_encode[of w j] True by simp
    have "horizontalLine src w r (int y) (int c) tmp ! nat (linePos ?start 4 ?x) =
        laggedMean src ?start 4 w r ?x"
      unfolding h using b(2) x by blast
    then have "horizontalLine src w r (int y) (int c) tmp ! j = laggedMean src ?start 4 w r ?x"
      unfolding pos jx[symmetric] .
    then show ?thesis
      using True by (simp add: laggedMean_def lagHorizontalAt_def f)
  next
    case False
    have "\<forall>x<w. j \<noteq> nat (linePos ?start 4 x)"
    proof (intro allI impI)
      fix x assume "x < w"
      then show "j \<noteq> nat (linePos ?start 4 x)"
        using False idx3_decode[of x w c y] c unfolding pos by auto
    qed
    then have "horizontalLine src w r (int y) (int c) tmp ! j = tmp ! j"
      unfolding h using b(3) by blast
    then show ?thesis using False by auto
  qed
qed


lemma horizontalRow_nth:
  assumes len: "length src = 4 * w * h" and tmp: "length tmp = length src"
    and r: "2 * r + 1 \<le> w" and y: "y < h" and j: "j < length src"
  shows "fold (horizontalLine src w r (int y)) [0..3] tmp ! j =
           (if (j div 4) div w = y then lagHorizontalAt src w r j else tmp ! j)"
proof -
  have "fold (horizontalLine src w r (int y)) [0..3] tmp ! j =
      (if \<exists>k\<in>set [0..3]. j \<in> {i. (i div 4) div w = y \<and> int (i mod 4) = k}
       then lagHorizontalAt src w r j else tmp ! j)"
  proof (rule fold_writes_nth[where n = "length src"])
    show "length (horizontalLine src w r (int y) k d) = length src" if "length d = length src" for k d
      using that by (simp add: horizontalLine_def length_blurLine)
    show "horizontalLine src w r (int y) k d ! i = d ! i"
      if "k \<in> set [0..3]" "length d = length src" "i < length src"
        "i \<notin> {i. (i div 4) div w = y \<and> int (i mod 4) = k}" for k d i
    proof -
      from that(1) have k: "k = int (nat k)" "nat k < 4" by auto
      show ?thesis
        using horizontalLine_nth(2)[OF len that(2) r y k(2) that(3)] that(4) k(1) by auto
    qed
    show "horizontalLine src w r (int y) k d ! i = lagHorizontalAt src w r i"
      if "k \<in> set [0..3]" "length d = length src"
        "i \<in> {i. (i div 4) div w = y \<and> int (i mod 4) = k}" "i < length src" for k d i
    proof -
      from that(1) have k: "k = int (nat k)" "nat k < 4" by auto
      show ?thesis
        using horizontalLine_nth(2)[OF len that(2) r y k(2) that(4)] that(3) k(1) by auto
    qed
  qed (use tmp j in simp_all)
  moreover have "(\<exists>k\<in>set [0..3]. j \<in> {i. (i div 4) div w = y \<and> int (i mod 4) = k})
      \<longleftrightarrow> (j div 4) div w = y"
  proof -
    have "int (j mod 4) \<in> set [0..3]" by auto
    then show ?thesis by auto
  qed
  ultimately show ?thesis by simp
qed

lemma length_horizontalRow: "length (fold (horizontalLine src w r y) [0..3] tmp) = length tmp"
  by (rule fold_length) (simp add: horizontalLine_def length_blurLine)

lemma horizontalPass_nth:
  assumes len: "length src = 4 * w * h" and tmp: "length tmp = length src"
    and r: "2 * r + 1 \<le> w" and j: "j < length src"
  shows "horizontalPass src tmp w h r ! j = lagHorizontalAt src w r j"
proof -
  have "fold (\<lambda>y. fold (horizontalLine src w r y) [0..3]) [0..int h - 1] tmp ! j =
      (if \<exists>y\<in>set [0..int h - 1]. j \<in> {i. int ((i div 4) div w) = y}
       then lagHorizontalAt src w r j else tmp ! j)"
  proof (rule fold_writes_nth[where n = "length src"])
    show "length (fold (horizontalLine src w r y) [0..3] d) = length src"
      if "length d = length src" for y d
      using that by (simp add: length_horizontalRow)
    show "fold (horizontalLine src w r y) [0..3] d ! i = d ! i"
      if "y \<in> set [0..int h - 1]" "length d = length src" "i < length src"
        "i \<notin> {i. int ((i div 4) div w) = y}" for y d i
    proof -
      from that(1) have y: "y = int (nat y)" "nat y < h" by auto
      show ?thesis
        using horizontalRow_nth[OF len that(2) r y(2) that(3)] that(4) y(1) by auto
    qed
    show "fold (horizontalLine src w r y) [0..3] d ! i = lagHorizontalAt src w r i"
      if "y \<in> set [0..int h - 1]" "length d = length src"
        "i \<in> {i. int ((i div 4) div w) = y}" "i < length src" for y d i
    proof -
      from that(1) have y: "y = int (nat y)" "nat y < h" by auto
      show ?thesis
        using horizontalRow_nth[OF len that(2) r y(2) that(4)] that(3) y(1) by auto
    qed
  qed (use tmp j in simp_all)
  moreover have "\<exists>y\<in>set [0..int h - 1]. j \<in> {i. int ((i div 4) div w) = y}"
    using row_of_index(1)[of j w h] j len by auto
  ultimately show ?thesis by (simp add: horizontalPass_def)
qed


lemma verticalLine_nth:
  assumes len: "length tmp = 4 * w * h" and dst: "length dst = length tmp"
    and r: "2 * r + 1 \<le> h" and x: "x < w" and c: "c < 4" and j: "j < length tmp"
  shows "verticalLine tmp w h r (int x) (int c) dst ! j =
           (if (j div 4) mod w = x \<and> j mod 4 = c then lagVerticalAt tmp w h r j else dst ! j)"
proof -
  let ?start = "int (idx3 w x 0 c)"
  let ?stride = "int w * 4"
  have h: "0 < h" using r by simp
  have w: "0 < w" using x by simp
  have pos: "nat (linePos ?start ?stride k) = idx3 w x k c" for k
    by (simp add: linePos_def idx3_def nat_add_distrib nat_mult_distrib algebra_simps)
  have "idx3 w x (h - 1) c < length tmp"
    unfolding len using h x c by (intro idx3_less) simp_all
  then have ok: "lineOk tmp ?start ?stride h r"
    using r w pos[of "h - 1"] by (simp add: lineOk_def linePos_def)
  have v: "verticalLine tmp w h r (int x) (int c) dst =
      blurLine tmp dst ?start ?stride (int h) r (linePos ?start ?stride (h - 1))"
    using h by (simp add: verticalLine_def idx3_def linePos_def of_nat_diff algebra_simps)
  note b = blurLine_lagged[OF ok dst refl]
  have f: "lineSample tmp ?start ?stride = colSample tmp w x c"
    by (rule ext) (simp add: lineSample_def colSample_def pos)
  show ?thesis
  proof (cases "(j div 4) mod w = x \<and> j mod 4 = c")
    case True
    let ?y = "(j div 4) div w"
    have y: "?y < h" using row_of_index(1)[of j w h] j len by simp
    have jy: "j = idx3 w x ?y c"
      using idx3_encode[of w j] True by simp
    have "verticalLine tmp w h r (int x) (int c) dst ! nat (linePos ?start ?stride ?y) =
        laggedMean tmp ?start ?stride h r ?y"
      unfolding v using b(2) y by blast
    then have "verticalLine tmp w h r (int x) (int c) dst ! j = laggedMean tmp ?start ?stride h r ?y"
      unfolding pos jy[symmetric] .
    then show ?thesis
      using True by (simp add: laggedMean_def lagVerticalAt_def f)
  next
    case False
    have "\<forall>k<h. j \<noteq> nat (linePos ?start ?stride k)"
    proof (intro allI impI)
      fix k assume "k < h"
      show "j \<noteq> nat (linePos ?start ?stride k)"
        using False idx3_decode[OF x c, of k] unfolding pos by auto
    qed
    then have "verticalLine tmp w h r (int x) (int c) dst ! j = dst ! j"
      unfolding v using b(3) by blast
    then show ?thesis using False by auto
  qed
qed

lemma verticalColumn_nth:
  assumes len: "length tmp = 4 * w * h" and dst: "length dst = length tmp"
    and r: "2 * r + 1 \<le> h" and x: "x < w" and j: "j < length tmp"
  shows "fold (verticalLine tmp w h r (int x)) [0..3] dst ! j =
           (if (j div 4) mod w = x then lagVerticalAt tmp w h r j else dst ! j)"
proof -
  have "fold (verticalLine tmp w h r (int x)) [0..3] dst ! j =
      (if \<exists>k\<in>set [0..3]. j \<in> {i. (i div 4) mod w = x \<and> int (i mod 4) = k}
       then lagVerticalAt tmp w h r j else dst ! j)"
  proof (rule fold_writes_nth[where n = "length tmp"])
    show "length (verticalLine tmp w h r (int x) k d) = length tmp" if "length d = length tmp" for k d
      using that by (simp add: verticalLine_def length_blurLine)
    show "verticalLine tmp w h r (int x) k d ! i = d ! i"
      if "k \<in> set [0..3]" "length d = length tmp" "i < length tmp"
        "i \<notin> {i. (i div 4) mod w = x \<and> int (i mod 4) = k}" for k d i
    proof -
      from that(1) have k: "k = int (nat k)" "nat k < 4" by auto
      show ?thesis
        using verticalLine_nth[OF len that(2) r x k(2) that(3)] that(4) k(1) by auto
    qed
    show "verticalLine tmp w h r (int x) k d ! i = lagVerticalAt tmp w h r i"
      if "k \<in> set [0..3]" "length d = length tmp"
        "i \<in> {i. (i div 4) mod w = x \<and> int (i mod 4) = k}" "i < length tmp" for k d i
    proof -
      from that(1) have k: "k = int (nat k)" "nat k < 4" by auto
      show ?thesis
        using verticalLine_nth[OF len that(2) r x k(2) that(4)] that(3) k(1) by auto
    qed
  qed (use dst j in simp_all)
  moreover have "(\<exists>k\<in>set [0..3]. j \<in> {i. (i div 4) mod w = x \<and> int (i mod 4) = k})
      \<longleftrightarrow> (j div 4) mod w = x"
  proof -
    have "int (j mod 4) \<in> set [0..3]" by auto
    then show ?thesis by auto
  qed
  ultimately show ?thesis by simp
qed

lemma length_verticalColumn: "length (fold (verticalLine tmp w h r x) [0..3] dst) = length dst"
  by (rule fold_length) (simp add: verticalLine_def length_blurLine)

lemma verticalPass_nth:
  assumes len: "length tmp = 4 * w * h" and dst: "length dst = length tmp"
    and r: "2 * r + 1 \<le> h" and j: "j < length tmp"
  shows "verticalPass tmp dst w h r ! j = lagVerticalAt tmp w h r j"
proof -
  have w: "0 < w" using j len by (cases w) simp_all
  have "fold (\<lambda>x. fold (verticalLine tmp w h r x) [0..3]) [0..int w - 1] dst ! j =
      (if \<exists>x\<in>set [0..int w - 1]. j \<in> {i. int ((i div 4) mod w) = x}
       then lagVerticalAt tmp w h r j else dst ! j)"
  proof (rule fold_writes_nth[where n = "length tmp"])
    show "length (fold (verticalLine tmp w h r x) [0..3] d) = length tmp"
      if "length d = length tmp" for x d
      using that by (simp add: length_verticalColumn)
    show "fold (verticalLine tmp w h r x) [0..3] d ! i = d ! i"
      if "x \<in> set [0..int w - 1]" "length d = length tmp" "i < length tmp"
        "i \<notin> {i. int ((i div 4) mod w) = x}" for x d i
    proof -
      from that(1) have x: "x = int (nat x)" "nat x < w" by auto
      show ?thesis
        using verticalColumn_nth[OF len that(2) r x(2) that(3)] that(4) x(1) by auto
    qed
    show "fold (verticalLine tmp w h r x) [0..3] d ! i = lagVerticalAt tmp w h r i"
      if "x \<in> set [0..int w - 1]" "length d = length tmp"
        "i \<in> {i. int ((i div 4) mod w) = x}" "i < length tmp" for x d i
    proof -
      from that(1) have x: "x = int (nat x)" "nat x < w" by auto
      show ?thesis
        using verticalColumn_nth[OF len that(2) r x(2) that(4)] that(3) x(1) by auto
    qed
  qed (use dst j in simp_all)
  moreover have "\<exists>x\<in>set [0..int w - 1]. j \<in> {i. int ((i div 4) mod w) = x}"
    using w by auto
  ultimately show ?thesis by (simp add: verticalPass_def)
qed

text \<open>
  What \<^verbatim>\<open>boxBlur\<close> computes on every buffer of \<open>4 * w * h\<close> samples whose lines are at
  least \<open>2 * r + 1\<close> long: the two-pass box mean whose windows are centred one position
  before the sample they are stored at.
\<close>

theorem boxBlur_lagged:
  assumes len: "length src = 4 * w * h" and rw: "2 * r + 1 \<le> w" and rh: "2 * r + 1 \<le> h"
  shows "boxBlur src w h r = laggedBoxBlur src w h r"
proof -
  let ?z = "replicate (length src) (0::byte)"
  let ?tmp = "horizontalPass src ?z w h r"
  have lt: "length ?tmp = length src"
    by (simp add: length_horizontalPass)
  have tmp: "?tmp = map (lagHorizontalAt src w r) [0..<length src]"
    by (rule nth_equalityI) (simp_all add: lt horizontalPass_nth[OF len _ rw])
  have "verticalPass ?tmp ?z w h r = map (lagVerticalAt ?tmp w h r) [0..<length src]"
    by (rule nth_equalityI)
      (use lt len in \<open>simp_all add: length_verticalPass verticalPass_nth[OF _ _ rh]\<close>)
  then show ?thesis
    unfolding boxBlur_def laggedBoxBlur_def tmp .
qed

text \<open>
  With radius 0 the window is one sample, so the lagged blur copies, to every position,
  the sample one column to the left and one row up (the sample itself in column 0 and in
  row 0).
\<close>

lemma windowMean_radius0:
  assumes "\<And>k. f k = uint (g k)"
  shows "windowMean f n t 0 = (g (clampCoord n t) :: byte)"
proof -
  have "windowSum f n t 0 = f (clampCoord n t)"
    by (simp add: windowSum_def)
  then show ?thesis
    using jsRound_of_int[of "uint (g (clampCoord n t))"]
    by (simp add: windowMean_def assms toUint8Clamp_uint)
qed

lemma clampCoord_pred: "x < n \<Longrightarrow> clampCoord n (int x - 1) = x - 1"
  by (auto simp: clampCoord_def)

lemma lagHorizontalAt_radius0:
  assumes "x < w" "c < 4"
  shows "lagHorizontalAt a w 0 (idx3 w x y c) = a ! idx3 w (x - 1) y c"
  using idx3_decode[OF assms, of y] assms(1)
  by (simp add: lagHorizontalAt_def windowMean_radius0[where g = "\<lambda>k. a ! idx3 w k y c"]
      rowSample_def clampCoord_pred)

lemma lagVerticalAt_radius0:
  assumes "x < w" "c < 4" "y < h"
  shows "lagVerticalAt a w h 0 (idx3 w x y c) = a ! idx3 w x (y - 1) c"
  using idx3_decode[OF assms(1,2), of y] assms(3)
  by (simp add: lagVerticalAt_def windowMean_radius0[where g = "\<lambda>k. a ! idx3 w x k c"]
      colSample_def clampCoord_pred)

lemma boxBlur_radius0_nth:
  assumes len: "length src = 4 * w * h" and x: "x < w" and y: "y < h" and c: "c < 4"
  shows "boxBlur src w h 0 ! idx3 w x y c = src ! idx3 w (x - 1) (y - 1) c"
proof -
  have wh: "2 * 0 + 1 \<le> w" "2 * 0 + 1 \<le> h"
    using x y by simp_all
  have i: "idx3 w x y c < length src" "idx3 w x (y - 1) c < length src"
    unfolding len using x y c by (auto intro!: idx3_less)
  have "boxBlur src w h 0 ! idx3 w x y c =
      lagVerticalAt (map (lagHorizontalAt src w 0) [0..<length src]) w h 0 (idx3 w x y c)"
    unfolding boxBlur_lagged[OF len wh] laggedBoxBlur_def using i(1) by simp
  also have "\<dots> = map (lagHorizontalAt src w 0) [0..<length src] ! idx3 w x (y - 1) c"
    by (rule lagVerticalAt_radius0[OF x c y])
  also have "\<dots> = lagHorizontalAt src w 0 (idx3 w x (y - 1) c)"
    using i(2) by simp
  also have "\<dots> = src ! idx3 w (x - 1) (y - 1) c"
    by (rule lagHorizontalAt_radius0[OF x c])
  finally show ?thesis .
qed

text \<open>
  Claim C2. The specification asks that every output sample be the rounded mean of the
  edge-replicated window centred on its own position. Each loop body of the source stores
  the mean of the running sum before it moves the window, and the running sum starts as
  the window centred on position \<open>-1\<close>: every sample is the mean of the window one
  position earlier. On a 3 x 3 image whose red channel is 0, 90, 180 along each row,
  with radius 1, the centred means are 30, 90, 150; the source returns 0, 30, 90.
\<close>

theorem boxBlur_window_lags:
  "boxBlur ramp 3 3 1 =
     [0, 0, 0, 255,  30, 0, 0, 255,  90, 0, 0, 255,
      0, 0, 0, 255,  30, 0, 0, 255,  90, 0, 0, 255,
      0, 0, 0, 255,  30, 0, 0, 255,  90, 0, 0, 255]
   \<and> specBoxBlur ramp 3 3 1 =
     [30, 0, 0, 255,  90, 0, 0, 255,  150, 0, 0, 255,
      30, 0, 0, 255,  90, 0, 0, 255,  150, 0, 0, 255,
      30, 0, 0, 255,  90, 0, 0, 255,  150, 0, 0, 255]"
proof -
  have "boxBlur ramp 3 3 1 =
     [0, 0, 0, 255,  30, 0, 0, 255,  90, 0, 0, 255,
      0, 0, 0, 255,  30, 0, 0, 255,  90, 0, 0, 255,
      0, 0, 0, 255,  30, 0, 0, 255,  90, 0, 0, 255]"
    unfolding ramp_def by code_simp
  moreover have "specBoxBlur ramp 3 3 1 =
     [30, 0, 0, 255,  90, 0, 0, 255,  150, 0, 0, 255,
      30, 0, 0, 255,  90, 0, 0, 255,  150, 0, 0, 255,
      30, 0, 0, 255,  90, 0, 0, 255,  150, 0, 0, 255]"
    unfolding ramp_def by code_simp
  ultimately show ?thesis by simp
qed

text \<open>
  Claim C3. The specification asks that radius 0 be the identity. With radius 0 the
  window is the sample itself, and the source, storing before it moves the window, writes
  each sample one position late: on a 2 x 1 image the second pixel of the result is a
  copy of the first.
\<close>

theorem boxBlur_radius0_shifts:
  "boxBlur twoPixels 2 1 0 = [10, 20, 30, 255,  10, 20, 30, 255]
   \<and> specBoxBlur twoPixels 2 1 0 = twoPixels
   \<and> boxBlur twoPixels 2 1 0 \<noteq> twoPixels"
proof -
  have "boxBlur twoPixels 2 1 0 = [10, 20, 30, 255,  10, 20, 30, 255]"
    unfolding twoPixels_def by code_simp
  moreover have "specBoxBlur twoPixels 2 1 0 = twoPixels"
    unfolding twoPixels_def by code_simp
  ultimately show ?thesis by (simp add: twoPixels_def)
qed

section \<open>Properties of unsharpMask\<close>

lemma sharpen_zero: "sharpen 0 (Some (uint (s::byte))) (Some bv) = Some (uint s)"
  using jsRound_of_int[of "uint s"] by (simp add: sharpen_def clamp255_uint)

lemma length_unsharpPixel: "length (unsharpPixel src blurred amount i d) = length d"
  by (simp add: unsharpPixel_def unsharpChannel_def length_wr upto_rec1)

lemma unsharpChannel_zero:
  assumes "length blurred = length src" "length d = length src"
  shows "unsharpChannel src blurred 0 (int i) (int c) d = d[i + c := src ! (i + c)]"
proof (cases "i + c < length src")
  case True
  then have "rd src (int i + int c) = Some (uint (src ! (i + c)))"
    "\<exists>bv. rd blurred (int i + int c) = Some bv"
    using assms by (simp_all add: rd_def nat_add_distrib)
  then show ?thesis
    by (auto simp: unsharpChannel_def wr_def sharpen_zero toUint8Clamp_uint nat_add_distrib)
next
  case False
  then show ?thesis
    using assms by (simp add: unsharpChannel_def wr_def nat_add_distrib list_update_beyond)
qed

lemma alpha_copy:
  assumes "length d = length src"
  shows "wr d (int i + 3) (rd src (int i + 3)) = d[i + 3 := src ! (i + 3)]"
proof (cases "i + 3 < length src")
  case True
  then have "rd src (int i + 3) = Some (uint (src ! (i + 3)))"
    by (simp add: rd_def nat_add_distrib)
  then show ?thesis
    by (simp add: wr_def toUint8Clamp_uint nat_add_distrib)
next
  case False
  then show ?thesis
    using assms by (simp add: wr_def nat_add_distrib list_update_beyond)
qed

lemma unsharpPixel_zero:
  assumes "length blurred = length src" "length d = length src"
  shows "unsharpPixel src blurred 0 (int i) d =
           d[i := src ! i, i + 1 := src ! (i + 1), i + 2 := src ! (i + 2), i + 3 := src ! (i + 3)]"
proof -
  have c: "unsharpChannel src blurred 0 (int i) (int c) e = e[i + c := src ! (i + c)]"
    if "length e = length src" for c e
    using unsharpChannel_zero[OF assms(1) that] .
  have "fold (unsharpChannel src blurred 0 (int i)) [0..2] d =
          d[i := src ! i, i + 1 := src ! (i + 1), i + 2 := src ! (i + 2)]"
    using c[of d 0] c[of "d[i := src ! i]" 1] c[of "d[i := src ! i, i + 1 := src ! (i + 1)]" 2] assms(2)
    by (simp add: upto_0_2)
  then show ?thesis
    using alpha_copy[of "d[i := src ! i, i + 1 := src ! (i + 1), i + 2 := src ! (i + 2)]" src i] assms(2)
    by (simp add: unsharpPixel_def)
qed

lemma unsharpLoop_zero:
  assumes "length blurred = length src"
  shows "unsharpLoop src blurred 0 = src"
proof (rule nth_equalityI)
  show len: "length (unsharpLoop src blurred 0) = length src"
    unfolding unsharpLoop_def
    by (simp add: fold_length length_unsharpPixel)
  fix j
  assume "j < length (unsharpLoop src blurred 0)"
  then have j: "j < length src" using len by simp
  let ?ks = "map (\<lambda>k. 4 * int k) [0..<(length src + 3) div 4]"
  have "fold (unsharpPixel src blurred 0) ?ks (replicate (length src) 0) ! j =
      (if \<exists>k\<in>set ?ks. j \<in> {nat k..<nat k + 4} then src ! j else replicate (length src) 0 ! j)"
  proof (rule fold_writes_nth[where n = "length src"])
    show "length (unsharpPixel src blurred 0 k d) = length src" if "length d = length src" for k d
      using that by (simp add: length_unsharpPixel)
    show "unsharpPixel src blurred 0 k d ! i = d ! i"
      if "k \<in> set ?ks" "length d = length src" "i < length src" "i \<notin> {nat k..<nat k + 4}" for k d i
    proof -
      from that(1) obtain m where k: "k = int (4 * m)" by auto
      show ?thesis
        using that(2,4) unfolding k unsharpPixel_zero[OF assms that(2)]
        by (auto simp: nth_list_update)
    qed
    show "unsharpPixel src blurred 0 k d ! i = src ! i"
      if "k \<in> set ?ks" "length d = length src" "i \<in> {nat k..<nat k + 4}" "i < length src" for k d i
    proof -
      from that(1) obtain m where k: "k = int (4 * m)" by auto
      from that(3) have "i = 4 * m \<or> i = 4 * m + 1 \<or> i = 4 * m + 2 \<or> i = 4 * m + 3"
        unfolding k by auto
      then show ?thesis
        using that(2,4) unfolding k unsharpPixel_zero[OF assms that(2)]
        by (auto simp: nth_list_update)
    qed
  qed (use j in simp_all)
  moreover have "\<exists>k\<in>set ?ks. j \<in> {nat k..<nat k + 4}"
  proof -
    have "j div 4 < (length src + 3) div 4" using j by simp
    then have "4 * int (j div 4) \<in> set ?ks" by auto
    moreover have "j \<in> {nat (4 * int (j div 4))..<nat (4 * int (j div 4)) + 4}"
      by (simp add: nat_mult_distrib)
    ultimately show ?thesis by blast
  qed
  ultimately show "unsharpLoop src blurred 0 ! j = src ! j"
    by (simp add: unsharpLoop_def)
qed

text \<open>
  Claim C9. With amount 0, \<^verbatim>\<open>unsharpMask\<close> is the identity: every output sample, colour
  and alpha, equals the input sample, whatever the buffer, the dimensions and the
  (non-negative integer) radius. The blurred copy does not matter: it has the length of
  the source, so every sample read from it is a number, and \<open>s + 0 * (s - b) = s\<close>.
\<close>

theorem unsharpMask_amount_zero: "unsharpMask src w h radius 0 = src"
  unfolding unsharpMask_def by (rule unsharpLoop_zero) (rule length_boxBlur)

section \<open>Properties of median3x3\<close>

lemma medianPixel_updates:
  "medianPixel src w h y x d =
     d[idx3 w x y 0 := sort (neighbourhood src w h x y 0) ! 4,
       idx3 w x y 0 + 1 := sort (neighbourhood src w h x y 1) ! 4,
       idx3 w x y 0 + 2 := sort (neighbourhood src w h x y 2) ! 4,
       idx3 w x y 0 + 3 := src ! (idx3 w x y 0 + 3)]"
proof -
  have "[0..<3] = [0, 1, 2]"
    by (simp add: upt_rec)
  then show ?thesis
    by (simp add: medianPixel_def medianChannel_def idx3_step[of w x y 1]
        idx3_step[of w x y 2] idx3_step[of w x y 3] idx3_step[of w x y "Suc 0"])
qed

lemma length_medianPixel: "length (medianPixel src w h y x d) = length d"
  by (simp add: medianPixel_updates)

lemma medianPixel_frame:
  assumes "j \<notin> {idx3 w x y 0..<idx3 w x y 0 + 4}"
  shows "medianPixel src w h y x d ! j = d ! j"
  using assms by (auto simp: medianPixel_updates nth_list_update)

lemma medianPixel_effect:
  assumes "j \<in> {idx3 w x y 0..<idx3 w x y 0 + 4}" "j < length d" "x < w"
  shows "medianPixel src w h y x d ! j = medianAt src w h j"
proof -
  from assms(1) obtain c where c: "c < 4" "j = idx3 w x y 0 + c"
    by (metis add.commute atLeastLessThan_iff le_Suc_ex nat_add_left_cancel_less)
  then have j: "j = idx3 w x y c"
    using idx3_step[of w x y c] by simp
  have dec: "j mod 4 = c" "(j div 4) mod w = x" "(j div 4) div w = y"
    using idx3_decode[OF assms(3) c(1), of y] j by simp_all
  from c(1) have "c = 0 \<or> c = 1 \<or> c = 2 \<or> c = 3" by auto
  then show ?thesis
    using assms(2) c(2) dec
    unfolding medianPixel_updates medianAt_def
    by (elim disjE) (simp_all add: nth_list_update)
qed

lemma medianRow_nth:
  assumes "length d = n" "j < n"
  shows "fold (medianPixel src w h y) [0..<w] d ! j =
           (if j \<in> {idx3 w 0 y 0..<idx3 w 0 (y + 1) 0} then medianAt src w h j else d ! j)"
proof -
  have "fold (medianPixel src w h y) [0..<w] d ! j =
      (if \<exists>x\<in>set [0..<w]. j \<in> {idx3 w x y 0..<idx3 w x y 0 + 4} then medianAt src w h j else d ! j)"
    by (rule fold_writes_nth[where n = n])
      (use assms in \<open>simp_all add: length_medianPixel medianPixel_frame medianPixel_effect\<close>)
  moreover have "(\<exists>x\<in>set [0..<w]. j \<in> {idx3 w x y 0..<idx3 w x y 0 + 4})
      \<longleftrightarrow> j \<in> {idx3 w 0 y 0..<idx3 w 0 (y + 1) 0}"
  proof
    assume "\<exists>x\<in>set [0..<w]. j \<in> {idx3 w x y 0..<idx3 w x y 0 + 4}"
    then show "j \<in> {idx3 w 0 y 0..<idx3 w 0 (y + 1) 0}"
      by (auto simp: idx3_def)
  next
    assume a: "j \<in> {idx3 w 0 y 0..<idx3 w 0 (y + 1) 0}"
    then have "j div 4 - y * w < w" "y * w \<le> j div 4"
      by (auto simp: idx3_def)
    then have "j div 4 - y * w \<in> set [0..<w]"
      "j \<in> {idx3 w (j div 4 - y * w) y 0..<idx3 w (j div 4 - y * w) y 0 + 4}"
      by (auto simp: idx3_def)
    then show "\<exists>x\<in>set [0..<w]. j \<in> {idx3 w x y 0..<idx3 w x y 0 + 4}"
      by blast
  qed
  ultimately show ?thesis by simp
qed

lemma length_medianRow: "length (fold (medianPixel src w h y) [0..<w] d) = length d"
  by (simp add: fold_length length_medianPixel)

lemma median3x3_nth:
  assumes "length src = 4 * w * h" "j < length src"
  shows "median3x3 src w h ! j = medianAt src w h j"
proof -
  let ?n = "length src"
  have "fold (\<lambda>y. fold (medianPixel src w h y) [0..<w]) [0..<h] (replicate ?n 0) ! j =
      (if \<exists>y\<in>set [0..<h]. j \<in> {idx3 w 0 y 0..<idx3 w 0 (y + 1) 0}
       then medianAt src w h j else replicate ?n 0 ! j)"
    by (rule fold_writes_nth[where n = ?n])
      (use assms(2) in \<open>auto simp: length_medianRow medianRow_nth\<close>)
  moreover have "\<exists>y\<in>set [0..<h]. j \<in> {idx3 w 0 y 0..<idx3 w 0 (y + 1) 0}"
  proof -
    have w: "0 < w" using assms by (cases w) simp_all
    have "j div 4 < w * h" using assms by simp
    then have "(j div 4) div w < h"
      by (simp add: less_mult_imp_div_less mult.commute)
    moreover have "j \<in> {idx3 w 0 ((j div 4) div w) 0..<idx3 w 0 ((j div 4) div w + 1) 0}"
    proof -
      define q where "q = j div 4"
      define t where "t = (q div w) * w"
      have t: "t \<le> q" "q < t + w"
        using dividend_less_div_times[OF w, of q] by (simp_all add: t_def)
      have q: "4 * q \<le> j" "j < 4 * q + 4"
        by (simp_all add: q_def)
      have "t * 4 \<le> j"
        using t q by linarith
      moreover have "j < (t + w) * 4"
      proof -
        have "q + 1 \<le> t + w" using t(2) by simp
        then have "4 * q + 4 \<le> (t + w) * 4" by simp
        then show ?thesis using q(2) by simp
      qed
      ultimately show ?thesis
        by (simp add: idx3_def q_def t_def add_mult_distrib)
    qed
    ultimately show ?thesis by auto
  qed
  ultimately show ?thesis
    by (simp add: median3x3_def)
qed


text \<open>
  Claim C5. On a buffer of \<open>4 * w * h\<close> samples, \<^verbatim>\<open>median3x3\<close> returns a buffer of the same
  length. At every pixel \<open>(x, y)\<close> and every colour channel \<open>c < 3\<close> the output sample is
  the element of rank 4 (counting from 0) of the sorted list of the nine samples of that
  channel at the coordinates \<open>x - 1 .. x + 1\<close>, \<open>y - 1 .. y + 1\<close>, each clamped to the
  image; the alpha sample is the source's.
\<close>

theorem median3x3_rank4:
  assumes "length src = 4 * w * h" and "x < w" and "y < h" and "c < 3"
  shows "length (median3x3 src w h) = length src
       \<and> median3x3 src w h ! idx3 w x y c =
             sort (map (\<lambda>(j, i). src ! idx3 w (clampCoord w (int x + i)) (clampCoord h (int y + j)) c)
               [(-1, -1), (-1, 0), (-1, 1), (0, -1), (0, 0), (0, 1), (1, -1), (1, 0), (1, 1)]) ! 4
       \<and> median3x3 src w h ! idx3 w x y 3 = src ! idx3 w x y 3"
proof -
  have len: "length (median3x3 src w h) = length src"
    by (simp add: median3x3_def fold_length length_medianRow)
  have inb: "idx3 w x y k < length src" if "k < 4" for k
  proof -
    have "y * w + x < (y + 1) * w" using assms(2) by simp
    also have "\<dots> \<le> h * w" using assms(3) by (intro mult_le_mono1) simp
    finally show ?thesis using that assms(1) by (simp add: idx3_def mult.commute)
  qed
  have "median3x3 src w h ! idx3 w x y c = medianAt src w h (idx3 w x y c)"
    using assms(4) by (intro median3x3_nth assms(1) inb) simp
  also have "\<dots> = sort (neighbourhood src w h x y c) ! 4"
    using assms(4) idx3_decode[OF assms(2), of c y] by (simp add: medianAt_def)
  finally have rgb: "median3x3 src w h ! idx3 w x y c =
      sort (map (\<lambda>(j, i). src ! idx3 w (clampCoord w (int x + i)) (clampCoord h (int y + j)) c)
        [(-1, -1), (-1, 0), (-1, 1), (0, -1), (0, 0), (0, 1), (1, -1), (1, 0), (1, 1)]) ! 4"
    by (simp add: neighbourhood_def neighbourRow_def neighbour_def upto_m1_1)
  have "median3x3 src w h ! idx3 w x y 3 = medianAt src w h (idx3 w x y 3)"
    by (intro median3x3_nth assms(1) inb) simp
  then have alpha: "median3x3 src w h ! idx3 w x y 3 = src ! idx3 w x y 3"
    using idx3_decode[OF assms(2), of 3 y] by (simp add: medianAt_def)
  from len rgb alpha show ?thesis by blast
qed

theorem median3x3_rank4_witness:
  "length fourPixels = 4 * 2 * 2 \<and> (1::nat) < 2 \<and> (0::nat) < 2 \<and> (1::nat) < 3
   \<and> length (median3x3 fourPixels 2 2) = length fourPixels
   \<and> median3x3 fourPixels 2 2 ! idx3 2 1 0 1 = 100
   \<and> median3x3 fourPixels 2 2 ! idx3 2 1 0 3 = 254"
proof -
  have s: "sort (map (\<lambda>(j, i). fourPixels ! idx3 2 (clampCoord 2 (int 1 + i)) (clampCoord 2 (int 0 + j)) 1)
      [(-1, -1), (-1, 0), (-1, 1), (0, -1), (0, 0), (0, 1), (1, -1), (1, 0), (1, 1)]) ! 4 = 100"
    unfolding fourPixels_def by code_simp
  have a: "fourPixels ! idx3 2 1 0 3 = 254"
    unfolding fourPixels_def by code_simp
  have l: "length fourPixels = 4 * 2 * 2"
    by (simp add: fourPixels_def)
  from median3x3_rank4 [of fourPixels 2 2 1 0 1, OF l] s a l show ?thesis
    by simp
qed

section \<open>Rounding to nearest\<close>

text \<open>
  The rounding of the embedding is rounding to nearest, ties to even. \<open>expo x\<close> is the
  binary exponent of \<open>x\<close>; the result of \<open>roundTo\<close> is \<open>roundEven (x / q)\<close> times the
  spacing \<open>q\<close> of the numbers of precision \<open>p\<close> around \<open>x\<close>, it is at most half a spacing
  away from \<open>x\<close>, and where two multiples are equally near, the multiplier is even.
\<close>

lemma bitLength_bounds:
  "0 < n \<Longrightarrow> 2 ^ (bitLength n - 1) \<le> n \<and> n < 2 ^ bitLength n"
proof (induction n rule: bitLength.induct)
  case (1 n)
  show ?case
  proof (cases "n div 2 = 0")
    case True
    with 1(2) have "n = 1"
      by (simp add: div_eq_0_iff) 
    then show ?thesis
      by (simp add: bitLength.simps)
  next
    case False
    then have h: "0 < n div 2" by simp
    from 1(2) have n: "n \<noteq> 0" by simp
    from 1(1)[OF n h] have a: "2 ^ (bitLength (n div 2) - 1) \<le> n div 2"
      and b: "n div 2 < 2 ^ bitLength (n div 2)"
      by simp_all
    have pos: "0 < bitLength (n div 2)"
      using h by (simp add: bitLength.simps[of "n div 2"])
    have e: "bitLength n = Suc (bitLength (n div 2))"
      using n by (simp add: bitLength.simps[of n])
    have "2 ^ (bitLength n - 1) = 2 * 2 ^ (bitLength (n div 2) - 1)"
      using pos unfolding e by (cases "bitLength (n div 2)") simp_all
    also have "\<dots> \<le> 2 * (n div 2)"
      using a by simp
    also have "\<dots> \<le> n"
      by simp
    finally have lo: "2 ^ (bitLength n - 1) \<le> n" .
    have "n < 2 * (n div 2) + 2"
      by linarith
    also have "\<dots> \<le> 2 * 2 ^ bitLength (n div 2)"
      using b by simp
    finally have "n < 2 ^ bitLength n"
      unfolding e by simp
    with lo show ?thesis ..
  qed
qed

lemma pow2_pos: "0 < pow2 e"
  by (simp add: pow2_def)

lemma pow2_Suc: "pow2 (e + 1) = 2 * pow2 e"
proof (cases "0 \<le> e")
  case True
  then show ?thesis
    by (simp add: pow2_def nat_add_distrib)
next
  case False
  then have "nat (- e) = Suc (nat (- (e + 1)))"
    by simp
  then show ?thesis
    using False by (simp add: pow2_def)
qed

lemma expo_bounds:
  assumes "x \<noteq> 0"
  shows "pow2 (expo x) \<le> \<bar>x\<bar> \<and> \<bar>x\<bar> < pow2 (expo x + 1)"
proof (cases "1 \<le> \<bar>x\<bar>")
  case True
  define n where "n = nat \<lfloor>\<bar>x\<bar>\<rfloor>"
  have n: "0 < n" "real n \<le> \<bar>x\<bar>" "\<bar>x\<bar> < real n + 1"
    using True unfolding n_def by linarith+
  from bitLength_bounds[OF n(1)] have lo: "2 ^ (bitLength n - 1) \<le> n" and hi: "n < 2 ^ bitLength n"
    by simp_all
  have pos: "0 < bitLength n"
    using n(1) by (simp add: bitLength.simps[of n])
  have e: "expo x = int (bitLength n) - 1"
    using True by (simp add: expo_def n_def)
  have p1: "pow2 (expo x) = 2 ^ (bitLength n - 1)"
    using pos unfolding e pow2_def by (simp add: nat_diff_distrib)
  have p2: "pow2 (expo x + 1) = 2 ^ bitLength n"
    unfolding e pow2_def by simp
  have "(2::real) ^ (bitLength n - 1) \<le> real n"
    using lo by simp
  then have a: "pow2 (expo x) \<le> \<bar>x\<bar>"
    unfolding p1 using n(2) by linarith
  have "n + 1 \<le> 2 ^ bitLength n"
    using hi by simp
  then have "real (n + 1) \<le> real (2 ^ bitLength n)"
    by (rule of_nat_mono)
  then have "real n + 1 \<le> 2 ^ bitLength n"
    by simp
  then have "\<bar>x\<bar> < pow2 (expo x + 1)"
    unfolding p2 using n(3) by linarith
  with a show ?thesis ..
next
  case False
  define t where "t = 1 / \<bar>x\<bar>"
  define k where "k = nat (\<lceil>t\<rceil> - 1)"
  have x: "0 < \<bar>x\<bar>" "\<bar>x\<bar> < 1"
    using assms False by simp_all
  then have t: "1 < t"
    unfolding t_def by simp
  then have c: "2 \<le> \<lceil>t\<rceil>"
    by linarith
  then have k: "0 < k" "real k < t" "t \<le> real k + 1"
    unfolding k_def by linarith+
  from bitLength_bounds[OF k(1)] have lo: "2 ^ (bitLength k - 1) \<le> k" and hi: "k < 2 ^ bitLength k"
    by simp_all
  have pos: "0 < bitLength k"
    using k(1) by (simp add: bitLength.simps[of k])
  have e: "expo x = - int (bitLength k)"
    using False by (simp add: expo_def k_def t_def)
  have p1: "pow2 (expo x) = 1 / 2 ^ bitLength k"
    using pos unfolding e pow2_def by simp
  have "- int (bitLength k) + 1 \<le> 0" "nat (- (- int (bitLength k) + 1)) = bitLength k - 1"
    using pos by simp_all
  then have p2: "pow2 (expo x + 1) = 1 / 2 ^ (bitLength k - 1)"
    unfolding e pow2_def using pos by (cases "bitLength k = 1") simp_all
  have "k + 1 \<le> 2 ^ bitLength k"
    using hi by simp
  then have "real (k + 1) \<le> real (2 ^ bitLength k)"
    by (rule of_nat_mono)
  then have "real k + 1 \<le> 2 ^ bitLength k"
    by simp
  then have "t \<le> 2 ^ bitLength k"
    using k(3) by linarith
  then have "1 / \<bar>x\<bar> \<le> 2 ^ bitLength k"
    by (simp add: t_def)
  then have a: "pow2 (expo x) \<le> \<bar>x\<bar>"
    unfolding p1 using x(1) by (simp add: field_simps)
  have "(2::real) ^ (bitLength k - 1) \<le> real k"
    using lo by simp
  then have "2 ^ (bitLength k - 1) < t"
    using k(2) by linarith
  then have "2 ^ (bitLength k - 1) < 1 / \<bar>x\<bar>"
    by (simp add: t_def)
  then have "\<bar>x\<bar> < pow2 (expo x + 1)"
    unfolding p2 using x(1) by (simp add: field_simps)
  with a show ?thesis ..
qed

lemma roundEven_nearest: "\<bar>real_of_int (roundEven t) - t\<bar> \<le> 1 / 2"
  unfolding roundEven_def tieToEven_def by (simp; linarith)

lemma roundEven_tie:
  "\<bar>real_of_int (roundEven t) - t\<bar> = 1 / 2 \<Longrightarrow> even (roundEven t)"
  unfolding roundEven_def tieToEven_def by (auto split: if_splits; linarith)

lemma quantize_nearest:
  assumes "0 < q"
  shows "\<bar>quantize q x - x\<bar> \<le> q / 2"
proof -
  have "quantize q x - x = (real_of_int (roundEven (x / q)) - x / q) * q"
    using assms by (simp add: quantize_def field_simps)
  then have "\<bar>quantize q x - x\<bar> = \<bar>real_of_int (roundEven (x / q)) - x / q\<bar> * q"
    using assms by (simp add: abs_mult)
  also have "\<dots> \<le> 1 / 2 * q"
    using roundEven_nearest[of "x / q"] assms by (intro mult_right_mono) simp_all
  finally show ?thesis by simp
qed

lemma roundTo_nearest:
  "\<bar>roundTo p emin x - x\<bar> \<le> pow2 (max (expo x) emin - int p + 1) / 2"
proof (cases "x = 0")
  case True
  then show ?thesis
    using pow2_pos[of "max (expo 0) emin - int p + 1"] by (simp add: roundTo_def)
next
  case False
  then show ?thesis
    using quantize_nearest[OF pow2_pos] by (simp add: roundTo_def)
qed

text \<open>
  The definitions that evaluate a rounding on concrete numbers.
\<close>

lemmas rounding_defs = double_def fround_def roundTo_def quantize_def roundEven_def
  tieToEven_def expo_def pow2_def fadd_def fsub_def fmul_def fdiv_def bitLength.simps

text \<open>
  Some well-known values: the double and the single nearest to 0.1, the sum
  \<^verbatim>\<open>0.1 + 0.2\<close> of JavaScript, which is 0.30000000000000004, the quotient \<^verbatim>\<open>1 / 3\<close>, a tie
  that goes to the even neighbour (\<open>2\<^sup>5\<^sup>3 + 1\<close> to \<open>2\<^sup>5\<^sup>3\<close>, \<open>2\<^sup>5\<^sup>3 + 3\<close> to \<open>2\<^sup>5\<^sup>3 + 4\<close>), and the
  smallest positive single, \<open>2\<^sup>-\<^sup>1\<^sup>4\<^sup>9\<close>, to which \<open>10\<^sup>-\<^sup>4\<^sup>5\<close> rounds.
\<close>

lemma rounding_examples:
  "double (1 / 10) = 3602879701896397 / 36028797018963968"
  "fround (1 / 10) = 13421773 / 134217728"
  "fadd (double (1 / 10)) (double (2 / 10)) = 1351079888211149 / 4503599627370496"
  "fdiv 1 3 = 6004799503160661 / 18014398509481984"
  "double (9007199254740992 + 1) = 9007199254740992"
  "double (9007199254740992 + 3) = 9007199254740992 + 4"
  "fround (1 / 10 ^ 45) = 1 / 2 ^ 149"
  by (simp_all add: rounding_defs)

section \<open>Properties of equalizeLuma\<close>

lemma fold_update_nth:
  assumes "length a = n" "i < n"
  shows "fold (\<lambda>k a. a[k := f k]) [0..<m] a ! i = (if i < m then f i else a ! i)"
proof -
  have "fold (\<lambda>k a. a[k := f k]) [0..<m] a ! i =
      (if \<exists>k\<in>set [0..<m]. i \<in> {k} then f i else a ! i)"
    by (rule fold_writes_nth[where n = n]) (use assms in auto)
  then show ?thesis by simp
qed

lemma fold_update_length: "length (fold (\<lambda>k a. a[k := f k]) ks a) = length a"
  by (rule fold_length) simp

lemma yArr_fold:
  "yArr (fold (yuvStep src) ks st) = fold (\<lambda>k a. a[k := lumaBin src k]) ks (yArr st)"
  by (induction ks arbitrary: st) (simp_all add: yuvStep_def Let_def lumaBin_def)

lemma uArr_fold:
  "uArr (fold (yuvStep src) ks st) = fold (\<lambda>k a. a[k := fround (pixelU src k)]) ks (uArr st)"
  by (induction ks arbitrary: st) (simp_all add: yuvStep_def Let_def pixelU_def)

lemma vArr_fold:
  "vArr (fold (yuvStep src) ks st) = fold (\<lambda>k a. a[k := fround (pixelV src k)]) ks (vArr st)"
  by (induction ks arbitrary: st) (simp_all add: yuvStep_def Let_def pixelV_def)

lemma length_toYUV:
  "length (yArr (toYUV src w h)) = w * h" "length (uArr (toYUV src w h)) = w * h"
  "length (vArr (toYUV src w h)) = w * h"
  by (simp_all add: toYUV_def yArr_fold uArr_fold vArr_fold fold_update_length)

lemma toYUV_nth:
  assumes "length src = 4 * w * h" "p < w * h"
  shows "yArr (toYUV src w h) ! p = lumaBin src p"
    and "uArr (toYUV src w h) ! p = fround (pixelU src p)"
    and "vArr (toYUV src w h) ! p = fround (pixelV src p)"
  unfolding toYUV_def pixel_count[OF assms(1)] yArr_fold uArr_fold vArr_fold
  using assms(2) by (simp_all add: fold_update_nth[where n = "w * h"])

lemma rebuildPixel_updates:
  "rebuildPixel src eqY us vs p d =
     d[4 * p := rebuiltAt src eqY us vs (4 * p), 4 * p + 1 := rebuiltAt src eqY us vs (4 * p + 1),
       4 * p + 2 := rebuiltAt src eqY us vs (4 * p + 2), 4 * p + 3 := rebuiltAt src eqY us vs (4 * p + 3)]"
proof -
  show ?thesis
    using quad_decode[of p] by (simp add: rebuildPixel_def rebuiltAt_def Let_def)
qed

lemma rebuild_nth:
  assumes "j < length src"
  shows "rebuild src eqY st ! j = rebuiltAt src eqY (uArr st) (vArr st) j"
proof -
  let ?n = "length src"
  let ?ks = "[0..<(?n + 3) div 4]"
  have "fold (rebuildPixel src eqY (uArr st) (vArr st)) ?ks (replicate ?n 0) ! j =
      (if \<exists>p\<in>set ?ks. j \<in> {4 * p..<4 * p + 4}
       then rebuiltAt src eqY (uArr st) (vArr st) j else replicate ?n 0 ! j)"
  proof (rule fold_writes_nth[where n = ?n])
    show "rebuildPixel src eqY (uArr st) (vArr st) k d ! i = d ! i"
      if "i \<notin> {4 * k..<4 * k + 4}" for k d i
      using that unfolding rebuildPixel_updates by (auto simp: nth_list_update)
    show "rebuildPixel src eqY (uArr st) (vArr st) k d ! i = rebuiltAt src eqY (uArr st) (vArr st) i"
      if "length d = ?n" "i \<in> {4 * k..<4 * k + 4}" "i < ?n" for k d i
    proof -
      from that(2) have "i = 4 * k \<or> i = 4 * k + 1 \<or> i = 4 * k + 2 \<or> i = 4 * k + 3"
        by auto
      then show ?thesis
        using that(1,3) unfolding rebuildPixel_updates by (auto simp: nth_list_update)
    qed
  qed (use assms in \<open>simp_all add: rebuildPixel_updates\<close>)
  moreover have "\<exists>p\<in>set ?ks. j \<in> {4 * p..<4 * p + 4}"
  proof -
    have "j div 4 \<in> set ?ks" using assms by simp
    moreover have "j \<in> {4 * (j div 4)..<4 * (j div 4) + 4}" by simp
    ultimately show ?thesis by blast
  qed
  ultimately show ?thesis by (simp add: rebuild_def)
qed

lemma length_rebuild: "length (rebuild src eqY st) = length src"
  unfolding rebuild_def by (rule trans[OF fold_length]) (simp_all add: rebuildPixel_updates)

lemma equalizeLuma_nth:
  assumes "length src = 4 * w * h" and "p < w * h"
  shows "equalizeLuma src w h ! (4 * p) =
           toChannel (redOf (equalizedLuma src w h ! p) (fround (pixelV src p)))"
    and "equalizeLuma src w h ! (4 * p + 1) =
           toChannel (greenOf (equalizedLuma src w h ! p) (fround (pixelU src p))
             (fround (pixelV src p)))"
    and "equalizeLuma src w h ! (4 * p + 2) =
           toChannel (blueOf (equalizedLuma src w h ! p) (fround (pixelU src p)))"
    and "equalizeLuma src w h ! (4 * p + 3) = src ! (4 * p + 3)"
proof -
  have j: "4 * p < length src" "4 * p + 1 < length src" "4 * p + 2 < length src"
    "4 * p + 3 < length src"
    using assms by simp_all
  show "equalizeLuma src w h ! (4 * p) =
           toChannel (redOf (equalizedLuma src w h ! p) (fround (pixelV src p)))"
    unfolding equalizeLuma_def
    using j(1) toYUV_nth(2,3)[OF assms] by (simp add: rebuild_nth rebuiltAt_def)
  show "equalizeLuma src w h ! (4 * p + 1) =
           toChannel (greenOf (equalizedLuma src w h ! p) (fround (pixelU src p))
             (fround (pixelV src p)))"
    unfolding equalizeLuma_def
    using j(2) quad_decode[of p] toYUV_nth(2,3)[OF assms] by (simp add: rebuild_nth rebuiltAt_def)
  show "equalizeLuma src w h ! (4 * p + 2) =
           toChannel (blueOf (equalizedLuma src w h ! p) (fround (pixelU src p)))"
    unfolding equalizeLuma_def
    using j(3) quad_decode[of p] toYUV_nth(2,3)[OF assms] by (simp add: rebuild_nth rebuiltAt_def)
  show "equalizeLuma src w h ! (4 * p + 3) = src ! (4 * p + 3)"
    unfolding equalizeLuma_def
    using j(4) quad_decode[of p] by (simp add: rebuild_nth rebuiltAt_def)
qed

lemma length_equalizeLuma: "length (equalizeLuma src w h) = length src"
  by (simp add: equalizeLuma_def length_rebuild)

lemma yArr_toYUV:
  assumes "length src = 4 * w * h"
  shows "yArr (toYUV src w h) = map (lumaBin src) [0..<w * h]"
  by (intro nth_equalityI) (simp_all add: length_toYUV toYUV_nth(1)[OF assms])

lemma remap_nth:
  assumes "length ys = w * h" and "p < w * h"
  shows "remap ys cdf w h ! p =
           fround (remapValue (real (unat (cdf ! unat (ys ! p)))) (real (cdfMinOf cdf))
             (fmul (real w) (real h)))"
  unfolding remap_def remapStep_def[abs_def] assms(1)
  using assms(2) by (simp add: fold_update_nth[where n = "w * h"])

lemma equalizedLuma_nth:
  assumes "length src = 4 * w * h" and "p < w * h"
  shows "equalizedLuma src w h ! p =
           fround (remapValue
             (real (unat (cumulative (histogram (map (lumaBin src) [0..<w * h])) ! unat (lumaBin src p))))
             (real (cdfMinOf (cumulative (histogram (map (lumaBin src) [0..<w * h])))))
             (fmul (real w) (real h)))"
proof -
  have "length (map (lumaBin src) [0..<w * h]) = w * h"
    by simp
  from remap_nth[OF this assms(2)] show ?thesis
    unfolding equalizedLuma_def yArr_toYUV[OF assms(1)] using assms(2) by simp
qed

lemma double_zero: "double 0 = 0"
  by (simp add: double_def roundTo_def)

lemma fround_zero: "fround 0 = 0"
  by (simp add: fround_def roundTo_def)

lemma remapValue_same: "remapValue c c t = 0"
  by (simp add: remapValue_def fsub_def fdiv_def double_zero)

lemma histogram_single_bin:
  assumes "\<And>i. i < length ys \<Longrightarrow> ys ! i = b"
  shows "histogram ys = (replicate 256 0)[unat b := word_of_nat (length ys)]"
proof -
  have b: "unat b < 256"
    using unsigned_less[of b, where 'a = nat] by simp
  have "m \<le> length ys \<Longrightarrow>
      fold (histStep ys) [0..<m] (replicate 256 0) = (replicate 256 0)[unat b := word_of_nat m]" for m
  proof (induction m)
    case 0
    have "(replicate 256 0)[unat b := 0] = replicate 256 (0::32 word)"
      using b by (simp add: list_update_same_conv)
    then show ?case by simp
  next
    case (Suc m)
    then have "ys ! m = b" using assms by simp
    then show ?case
      using Suc b by (simp add: histStep_def add.commute)
  qed
  then show ?thesis by (simp add: histogram_def)
qed


lemma map_update_upt:
  assumes "m < n"
  shows "(map f [0..<n])[m := x] = map (\<lambda>i. if i = m then x else f i) [0..<n]"
  using assms by (intro nth_equalityI) (simp_all add: nth_list_update)

lemma cumulative_single_bin:
  assumes k: "k < 256" and m: "m \<le> 256"
  shows "fold (cdfStep ((replicate 256 0)[k := v])) [0..<m] (0, replicate 256 0) =
           (if k < m then unat v else 0, map (\<lambda>i. if k \<le> i \<and> i < m then v else 0) [0..<256])"
  using m
proof (induction m)
  case 0
  show ?case
    by (simp add: map_replicate_const)
next
  case (Suc m)
  let ?hist = "(replicate 256 0)[k := v]"
  have m: "m < 256" using Suc.prems by simp
  have h: "?hist ! m = (if m = k then v else 0)"
    using k m by (simp add: nth_list_update)
  have IH: "fold (cdfStep ?hist) [0..<m] (0, replicate 256 0) =
      (if k < m then unat v else 0, map (\<lambda>i. if k \<le> i \<and> i < m then v else 0) [0..<256])"
    using Suc by simp
  have cum: "(if k < m then unat v else 0) + unat (?hist ! m) = (if k < Suc m then unat v else 0)"
    unfolding h by auto
  have upd: "(map (\<lambda>i. if k \<le> i \<and> i < m then v else 0) [0..<256])
          [m := word_of_nat (if k < Suc m then unat v else 0)] =
        map (\<lambda>i. if k \<le> i \<and> i < Suc m then v else 0) [0..<256]"
    unfolding map_update_upt[OF m] by (rule map_cong) auto
  have step: "fold (cdfStep ?hist) [0..<Suc m] (0, replicate 256 0) =
      cdfStep ?hist m (fold (cdfStep ?hist) [0..<m] (0, replicate 256 0))"
    by simp
  show ?case
    unfolding step IH unfolding cdfStep_def fst_conv snd_conv cum upd ..
qed

lemma cumulative_single:
  assumes "k < 256"
  shows "cumulative ((replicate 256 0)[k := v]) = replicate k 0 @ replicate (256 - k) v"
proof -
  have "cumulative ((replicate 256 0)[k := v]) = map (\<lambda>i. if k \<le> i then v else 0) [0..<256]"
    unfolding cumulative_def cumulative_single_bin[OF assms order_refl]
    by (simp cong: map_cong)
  also have "\<dots> = replicate k 0 @ replicate (256 - k) v"
    using assms by (intro nth_equalityI) (auto simp: nth_append)
  finally show ?thesis .
qed

lemma find_skip_zeros:
  "find (\<lambda>x. 0 < x) (replicate k (0::32 word) @ ys) = find (\<lambda>x. 0 < x) ys"
  by (induction k) simp_all

lemma cdfMinOf_single:
  assumes "k < 256"
  shows "cdfMinOf (replicate k 0 @ replicate (256 - k) v) = unat v"
proof (cases "v = 0")
  case True
  have "find (\<lambda>x. 0 < x) (replicate j (0::32 word)) = None" for j
    by (induction j) simp_all
  then show ?thesis
    unfolding cdfMinOf_def find_skip_zeros True by simp
next
  case False
  obtain n where n: "256 - k = Suc n"
    using assms by (cases "256 - k") simp_all
  show ?thesis
    unfolding cdfMinOf_def find_skip_zeros n using False by (simp add: word_greater_zero_iff)
qed


lemma equalizedLuma_single_bin:
  assumes len: "length src = 4 * w * h"
    and bin: "map (lumaBin src) [0..<w * h] = replicate (w * h) b"
  shows "equalizedLuma src w h = replicate (w * h) 0"
    and "cdfMinOf (cumulative (histogram (yArr (toYUV src w h)))) = (w * h) mod 2 ^ 32"
    and "unat (cumulative (histogram (yArr (toYUV src w h))) ! unat b) = (w * h) mod 2 ^ 32"
proof -
  let ?ys = "yArr (toYUV src w h)"
  let ?v = "word_of_nat (w * h) :: 32 word"
  let ?cdf = "replicate (unat b) 0 @ replicate (256 - unat b) ?v"
  have k: "unat b < 256"
    using unsigned_less[of b, where 'a = nat] by simp
  have ys: "?ys ! i = b" if "i < w * h" for i
  proof -
    have "map (lumaBin src) [0..<w * h] ! i = replicate (w * h) b ! i"
      by (simp only: bin)
    then show ?thesis
      using that toYUV_nth(1)[OF len that] by simp
  qed
  have hist: "histogram ?ys = (replicate 256 0)[unat b := ?v]"
    using histogram_single_bin[of ?ys b] ys by (simp add: length_toYUV)
  have cdf: "cumulative (histogram ?ys) = ?cdf"
    unfolding hist by (rule cumulative_single[OF k])
  have uv: "unat ?v = (w * h) mod 2 ^ 32"
    by (simp add: unat_of_nat del: of_nat_mult)
  show m: "cdfMinOf (cumulative (histogram ?ys)) = (w * h) mod 2 ^ 32"
    unfolding cdf cdfMinOf_single[OF k] by (rule uv)
  have at: "?cdf ! unat b = ?v"
    using k by (simp add: nth_append)
  show "unat (cumulative (histogram ?ys) ! unat b) = (w * h) mod 2 ^ 32"
    unfolding cdf at by (rule uv)
  have "remapStep ?ys ?cdf (cdfMinOf ?cdf) (fmul (real w) (real h)) i (replicate (w * h) 0) =
      replicate (w * h) 0"
    if "i \<in> set [0..<length ?ys]" for i
  proof -
    from that have i: "i < w * h" by (simp add: length_toYUV)
    have "(replicate (w * h) (0::real))[i := 0] = replicate (w * h) 0"
      using i by (simp add: list_update_same_conv)
    then show ?thesis
      unfolding remapStep_def ys[OF i] at cdfMinOf_single[OF k] remapValue_same fround_zero .
  qed
  then have "remap ?ys ?cdf w h = replicate (w * h) 0"
    unfolding remap_def by (rule fold_fixed)
  then show "equalizedLuma src w h = replicate (w * h) 0"
    by (simp add: equalizedLuma_def cdf)
qed


text \<open>
  The definitions that evaluate the sums and stores of \<^verbatim>\<open>equalizeLuma\<close> on concrete
  samples.
\<close>

lemmas pixel_defs = lumaBin_def pixelU_def pixelV_def exactU_def exactV_def norm255_def
  sample_def lumaOf_def chromaU_def chromaV_def redOf_def greenOf_def blueOf_def
  remapValue_def toChannel_def jsRound_def clamp255_def toUint8Clamp_def

text \<open>
  The quantised luma depends on the rounding of the doubles. The pixel (0, 12, 4) has
  luma \<open>(0.587 * 12 + 0.114 * 4) / 255 = 7.5 / 255\<close> in exact arithmetic, which would
  round to bin 8; in double arithmetic the product with 255 falls just below 7.5 and
  \<^verbatim>\<open>Math.round\<close> yields 7. Next to a grey pixel of bin 8 the image has two populated
  bins, and the grey pixel is remapped to luminance 1.
\<close>

lemma map_upt_2: "map f [0..<2 * 1] = [f 0, f 1]"
  by (simp add: eval_nat_numeral)

lemma map_upt_3: "map f [0..<3 * 1] = [f 0, f 1, f 2]"
  by (simp add: eval_nat_numeral)

lemma nearTie_bins: "map (lumaBin nearTie) [0..<2 * 1] = [7, 8]"
proof -
  have "lumaBin nearTie 0 = 7" "lumaBin nearTie 1 = 8"
    by (simp_all add: nearTie_def pixel_defs rounding_defs)
  then show ?thesis
    unfolding map_upt_2 by simp
qed

lemma nearTie_equalized: "equalizedLuma nearTie 2 1 ! 1 = 1"
proof -
  have l: "length nearTie = 4 * 2 * 1"
    by (simp add: nearTie_def)
  have b: "lumaBin nearTie 1 = 8"
    by (simp add: nearTie_def pixel_defs rounding_defs)
  have c: "unat (cumulative (histogram [7, 8]) ! unat (8 :: byte)) = 2"
    by code_simp
  have m: "cdfMinOf (cumulative (histogram [7, 8])) = 1"
    by code_simp
  have v: "fround (remapValue (real 2) (real 1) (fmul (real 2) (real 1))) = 1"
    by (simp add: pixel_defs rounding_defs)
  have "equalizedLuma nearTie 2 1 ! 1 =
      fround (remapValue
        (real (unat (cumulative (histogram (map (lumaBin nearTie) [0..<2 * 1])) ! unat (lumaBin nearTie 1))))
        (real (cdfMinOf (cumulative (histogram (map (lumaBin nearTie) [0..<2 * 1])))))
        (fmul (real 2) (real 1)))"
    by (rule equalizedLuma_nth[OF l]) simp
  then show ?thesis
    unfolding nearTie_bins b c m v .
qed

lemma nearTie_output:
  "equalizeLuma nearTie 2 1 ! 4 = 255 \<and> equalizeLuma nearTie 2 1 ! 5 = 255
   \<and> equalizeLuma nearTie 2 1 ! 6 = 255"
proof -
  have l: "length nearTie = 4 * 2 * 1"
    by (simp add: nearTie_def)
  have n: "(1::nat) < 2 * 1"
    by simp
  have r: "toChannel (redOf 1 (fround (pixelV nearTie 1))) = 255"
    by (simp add: nearTie_def pixel_defs rounding_defs)
  have g: "toChannel (greenOf 1 (fround (pixelU nearTie 1)) (fround (pixelV nearTie 1))) = 255"
    by (simp add: nearTie_def pixel_defs rounding_defs)
  have b: "toChannel (blueOf 1 (fround (pixelU nearTie 1))) = 255"
    by (simp add: nearTie_def pixel_defs rounding_defs)
  from equalizeLuma_nth(1,2,3)[OF l n] r g b show ?thesis
    unfolding nearTie_equalized by simp
qed


text \<open>
  Claim C6 says that the U and V used in the reconstruction are exactly those computed
  from the pixel's samples. The source stores the computed \<^verbatim>\<open>u\<close> and \<^verbatim>\<open>v\<close> in
  \<^verbatim>\<open>Float32Array\<close>s, and the reconstruction reads them back rounded to single
  precision. On the one-pixel image (4, 201, 187, 255) the stored U is neither the
  double computed by the source nor the exact weighted sum; the luminance is remapped to
  0, and \<open>2.03211 U * 255\<close> is just above 46.5 for the computed U and just below it for
  the stored one: the source writes blue 46, where the U exactly as computed gives 47.
\<close>

theorem equalizeLuma_chroma_single_precision:
  "uArr (toYUV tealPixel 1 1) ! 0 \<noteq> pixelU tealPixel 0
   \<and> uArr (toYUV tealPixel 1 1) ! 0 \<noteq> exactU tealPixel 0
   \<and> equalizeLuma tealPixel 1 1 ! (4 * 0 + 2) = 46
   \<and> toChannel (blueOf (equalizedLuma tealPixel 1 1 ! 0) (pixelU tealPixel 0)) = 47
   \<and> toChannel (blueOf (equalizedLuma tealPixel 1 1 ! 0) (exactU tealPixel 0)) = 47"
proof -
  have l: "length tealPixel = 4 * 1 * 1"
    by (simp add: tealPixel_def)
  have n: "(0::nat) < 1 * 1"
    by simp
  have u: "uArr (toYUV tealPixel 1 1) ! 0 = fround (pixelU tealPixel 0)"
    by (rule toYUV_nth(2)[OF l n])
  have d: "fround (pixelU tealPixel 0) \<noteq> pixelU tealPixel 0"
    by (simp add: tealPixel_def pixel_defs rounding_defs)
  have x: "fround (pixelU tealPixel 0) \<noteq> exactU tealPixel 0"
    by (simp add: tealPixel_def pixel_defs rounding_defs)
  have "map (lumaBin tealPixel) [0..<1 * 1] = replicate (1 * 1) 141"
    by (simp add: tealPixel_def pixel_defs rounding_defs)
  from equalizedLuma_single_bin(1)[OF l this] have y: "equalizedLuma tealPixel 1 1 ! 0 = 0"
    by simp
  have b: "toChannel (blueOf 0 (fround (pixelU tealPixel 0))) = 46"
    by (simp add: tealPixel_def pixel_defs rounding_defs)
  have c: "toChannel (blueOf 0 (pixelU tealPixel 0)) = 47"
    by (simp add: tealPixel_def pixel_defs rounding_defs)
  have e: "toChannel (blueOf 0 (exactU tealPixel 0)) = 47"
    by (simp add: tealPixel_def pixel_defs rounding_defs)
  have o: "equalizeLuma tealPixel 1 1 ! (4 * 0 + 2) = 46"
    using equalizeLuma_nth(3)[OF l n] unfolding y b .
  from d x o c e show ?thesis
    unfolding u y by blast
qed

text \<open>
  Claim C6, amended. On a buffer of \<open>4 * w * h\<close> samples \<^verbatim>\<open>equalizeLuma\<close> keeps the length,
  and the red, green and blue samples of every output pixel \<open>p\<close> are rebuilt by
  \<open>R = Y' + 1.13983 V\<close>, \<open>G = Y' - 0.39465 U - 0.58060 V\<close>, \<open>B = Y' + 2.03211 U\<close> (in
  double arithmetic, then scaled to 0..255, rounded and clamped by \<open>toChannel\<close>) from the
  remapped luminance \<open>Y'\<close> of that pixel and from the single-precision roundings of
  \<open>U = -0.14713 R - 0.28886 G + 0.436 B\<close> and \<open>V = 0.615 R - 0.51499 G - 0.10001 B\<close>,
  computed in double arithmetic from that pixel's own source samples divided by 255
  (\<open>pixelU\<close>, \<open>pixelV\<close>); the alpha sample is the source's.
\<close>

theorem equalizeLuma_keeps_chroma_alpha:
  assumes "length src = 4 * w * h" and "p < w * h"
  shows "length (equalizeLuma src w h) = length src
       \<and> equalizeLuma src w h ! (4 * p) =
           toChannel (redOf (equalizedLuma src w h ! p) (fround (pixelV src p)))
       \<and> equalizeLuma src w h ! (4 * p + 1) =
           toChannel (greenOf (equalizedLuma src w h ! p) (fround (pixelU src p))
             (fround (pixelV src p)))
       \<and> equalizeLuma src w h ! (4 * p + 2) =
           toChannel (blueOf (equalizedLuma src w h ! p) (fround (pixelU src p)))
       \<and> equalizeLuma src w h ! (4 * p + 3) = src ! (4 * p + 3)"
  using equalizeLuma_nth[OF assms] length_equalizeLuma by blast

theorem equalizeLuma_keeps_chroma_alpha_witness:
  "length threeTone = 4 * 3 * 1 \<and> (1::nat) < 3 * 1
   \<and> length (equalizeLuma threeTone 3 1) = length threeTone
   \<and> equalizedLuma threeTone 3 1 ! 1 = 1 / 2
   \<and> equalizeLuma threeTone 3 1 ! (4 * 1) = 96
   \<and> equalizeLuma threeTone 3 1 ! (4 * 1 + 1) = 146
   \<and> equalizeLuma threeTone 3 1 ! (4 * 1 + 2) = 116
   \<and> equalizeLuma threeTone 3 1 ! (4 * 1 + 3) = 128"
proof -
  have l: "length threeTone = 4 * 3 * 1"
    by (simp add: threeTone_def)
  have n: "(1::nat) < 3 * 1"
    by simp
  have "lumaBin threeTone 0 = 18" "lumaBin threeTone 1 = 132" "lumaBin threeTone 2 = 208"
    by (simp_all add: threeTone_def pixel_defs rounding_defs)
  then have bins: "map (lumaBin threeTone) [0..<3 * 1] = [18, 132, 208]"
    and bin: "lumaBin threeTone 1 = 132"
    unfolding map_upt_3 by simp_all
  have c: "unat (cumulative (histogram [18, 132, 208]) ! unat (132 :: byte)) = 2"
    by code_simp
  have m: "cdfMinOf (cumulative (histogram [18, 132, 208])) = 1"
    by code_simp
  have v: "fround (remapValue (real 2) (real 1) (fmul (real 3) (real 1))) = 1 / 2"
    by (simp add: pixel_defs rounding_defs)
  have "equalizedLuma threeTone 3 1 ! 1 =
      fround (remapValue
        (real (unat (cumulative (histogram (map (lumaBin threeTone) [0..<3 * 1]))
           ! unat (lumaBin threeTone 1))))
        (real (cdfMinOf (cumulative (histogram (map (lumaBin threeTone) [0..<3 * 1])))))
        (fmul (real 3) (real 1)))"
    by (rule equalizedLuma_nth[OF l]) simp
  then have y: "equalizedLuma threeTone 3 1 ! 1 = 1 / 2"
    unfolding bins bin c m v .
  have r: "toChannel (redOf (1 / 2) (fround (pixelV threeTone 1))) = 96"
    by (simp add: threeTone_def pixel_defs rounding_defs)
  have g: "toChannel (greenOf (1 / 2) (fround (pixelU threeTone 1)) (fround (pixelV threeTone 1)))
      = 146"
    by (simp add: threeTone_def pixel_defs rounding_defs)
  have b: "toChannel (blueOf (1 / 2) (fround (pixelU threeTone 1))) = 116"
    by (simp add: threeTone_def pixel_defs rounding_defs)
  have a: "threeTone ! (4 * 1 + 3) = 128"
    by (simp add: threeTone_def)
  from equalizeLuma_keeps_chroma_alpha [of threeTone 3 1 1, OF l n] show ?thesis
    unfolding y r g b a using l by simp
qed

text \<open>
  Claim C10 says that a single-bin image is rebuilt from luminance 0 with the original U
  and V. The luminance is 0, but the U and V are the stored ones, rounded to single
  precision. On the image of two pixels (255, 120, 51, 255) both pixels fall in bin 152
  and the luminance is remapped to 0; \<open>1.13983 V * 255\<close> is just below 102.5 for the V
  computed from the samples and just above it for the stored one: the source writes red
  103, where the V as computed gives 102.
\<close>

theorem equalizeLuma_single_bin_stored_chroma:
  "map (lumaBin flatOrange) [0..<2 * 1] = replicate (2 * 1) 152
   \<and> equalizedLuma flatOrange 2 1 ! 1 = 0
   \<and> vArr (toYUV flatOrange 2 1) ! 1 \<noteq> pixelV flatOrange 1
   \<and> equalizeLuma flatOrange 2 1 ! (4 * 1) = 103
   \<and> toChannel (redOf 0 (pixelV flatOrange 1)) = 102
   \<and> toChannel (redOf 0 (exactV flatOrange 1)) = 102"
proof -
  have l: "length flatOrange = 4 * 2 * 1"
    by (simp add: flatOrange_def)
  have n: "(1::nat) < 2 * 1"
    by simp
  have "lumaBin flatOrange 0 = 152" "lumaBin flatOrange 1 = 152"
    by (simp_all add: flatOrange_def pixel_defs rounding_defs)
  then have m: "map (lumaBin flatOrange) [0..<2 * 1] = replicate (2 * 1) 152"
    unfolding map_upt_2 by (simp add: eval_nat_numeral)
  from equalizedLuma_single_bin(1)[OF l m] have y: "equalizedLuma flatOrange 2 1 ! 1 = 0"
    by simp
  have v: "vArr (toYUV flatOrange 2 1) ! 1 = fround (pixelV flatOrange 1)"
    by (rule toYUV_nth(3)[OF l n])
  have d: "fround (pixelV flatOrange 1) \<noteq> pixelV flatOrange 1"
    by (simp add: flatOrange_def pixel_defs rounding_defs)
  have r: "toChannel (redOf 0 (fround (pixelV flatOrange 1))) = 103"
    by (simp add: flatOrange_def pixel_defs rounding_defs)
  have c: "toChannel (redOf 0 (pixelV flatOrange 1)) = 102"
    by (simp add: flatOrange_def pixel_defs rounding_defs)
  have e: "toChannel (redOf 0 (exactV flatOrange 1)) = 102"
    by (simp add: flatOrange_def pixel_defs rounding_defs)
  have o: "equalizeLuma flatOrange 2 1 ! (4 * 1) = 103"
    using equalizeLuma_nth(1)[OF l n] unfolding y r .
  from m y d o c e show ?thesis
    unfolding v by blast
qed

text \<open>
  Claim C10, amended. When the quantised 8-bit luma values of all pixels, as the source
  computes them, fall in one histogram bin \<open>b\<close> (any constant-colour image), the
  cumulative count at \<open>b\<close> and \<^verbatim>\<open>cdfMin\<close> are both the pixel count \<open>w * h\<close> (as
  \<^verbatim>\<open>Uint32Array\<close> holds it: modulo \<open>2\<^sup>3\<^sup>2\<close>), the remap numerator is 0, and the equalised
  luminance of every pixel is 0: every output pixel is rebuilt from luminance 0 with its
  own U and V as the \<^verbatim>\<open>Float32Array\<close>s hold them, rounded to single precision, and keeps
  its alpha.
\<close>

theorem equalizeLuma_single_bin:
  assumes "length src = 4 * w * h" and "p < w * h"
    and "map (lumaBin src) [0..<w * h] = replicate (w * h) b"
  shows "unat (cumulative (histogram (yArr (toYUV src w h))) ! unat b) = (w * h) mod 2 ^ 32
       \<and> cdfMinOf (cumulative (histogram (yArr (toYUV src w h)))) = (w * h) mod 2 ^ 32
       \<and> equalizedLuma src w h ! p = 0
       \<and> equalizeLuma src w h ! (4 * p) = toChannel (redOf 0 (fround (pixelV src p)))
       \<and> equalizeLuma src w h ! (4 * p + 1) =
           toChannel (greenOf 0 (fround (pixelU src p)) (fround (pixelV src p)))
       \<and> equalizeLuma src w h ! (4 * p + 2) = toChannel (blueOf 0 (fround (pixelU src p)))
       \<and> equalizeLuma src w h ! (4 * p + 3) = src ! (4 * p + 3)"
proof -
  have z: "equalizedLuma src w h ! p = 0"
    using equalizedLuma_single_bin(1)[OF assms(1,3)] assms(2) by simp
  show ?thesis
    using equalizeLuma_nth[OF assms(1,2)] equalizedLuma_single_bin(2,3)[OF assms(1,3)]
    unfolding z by simp
qed

theorem equalizeLuma_single_bin_witness:
  "length flatPair = 4 * 2 * 1 \<and> (1::nat) < 2 * 1
   \<and> map (lumaBin flatPair) [0..<2 * 1] = replicate (2 * 1) 208
   \<and> unat (cumulative (histogram (yArr (toYUV flatPair 2 1))) ! unat (208::byte)) = 2
   \<and> cdfMinOf (cumulative (histogram (yArr (toYUV flatPair 2 1)))) = 2
   \<and> equalizedLuma flatPair 2 1 ! 1 = 0
   \<and> equalizeLuma flatPair 2 1 ! (4 * 1) = 0
   \<and> equalizeLuma flatPair 2 1 ! (4 * 1 + 1) = 2
   \<and> equalizeLuma flatPair 2 1 ! (4 * 1 + 2) = 12
   \<and> equalizeLuma flatPair 2 1 ! (4 * 1 + 3) = 255"
proof -
  have l: "length flatPair = 4 * 2 * 1"
    by (simp add: flatPair_def)
  have n: "(1::nat) < 2 * 1"
    by simp
  have "lumaBin flatPair 0 = 208" "lumaBin flatPair 1 = 208"
    by (simp_all add: flatPair_def pixel_defs rounding_defs)
  then have m: "map (lumaBin flatPair) [0..<2 * 1] = replicate (2 * 1) 208"
    unfolding map_upt_2 by (simp add: eval_nat_numeral)
  have r: "toChannel (redOf 0 (fround (pixelV flatPair 1))) = 0"
    by (simp add: flatPair_def pixel_defs rounding_defs)
  have g: "toChannel (greenOf 0 (fround (pixelU flatPair 1)) (fround (pixelV flatPair 1))) = 2"
    by (simp add: flatPair_def pixel_defs rounding_defs)
  have b: "toChannel (blueOf 0 (fround (pixelU flatPair 1))) = 12"
    by (simp add: flatPair_def pixel_defs rounding_defs)
  have a: "flatPair ! (4 * 1 + 3) = 255"
    by (simp add: flatPair_def)
  from equalizeLuma_single_bin [of flatPair 2 1 1 208, OF l n m] show ?thesis
    unfolding r g b a using l m by simp
qed

end
